theory Spec2Isabelle
  imports Main "HOL-Library.Word" "HOL-Library.Sublist"
begin

unbundle bit_operations_syntax

section \<open>librdns private declarations (contrib/librdns/dns\_private.h)\<close>

text \<open>
  The header declares the resolver's built-in constants, the overlay of the DNS message
  header as a struct of bit-fields, the request lifecycle enumeration, the per-channel
  TCP framing state and the enumerations of wire codes. Each declaration is embedded
  below under its own name.
\<close>

subsection \<open>Constants and limits\<close>

text \<open>\<^verbatim>\<open>static const int dns_port = 53;\<close> and its two neighbours.\<close>

definition dns_port :: int where
  "dns_port = 53"

definition default_io_cnt :: int where
  "default_io_cnt = 8"

definition default_tcp_io_cnt :: int where
  "default_tcp_io_cnt = 1"

text \<open>The macros \<^verbatim>\<open>UDP_PACKET_SIZE\<close>, \<^verbatim>\<open>DNS_COMPRESSION_BITS\<close>,
  \<^verbatim>\<open>DNS_D_MAXLABEL\<close> and \<^verbatim>\<open>DNS_D_MAXNAME\<close>.\<close>

definition UDP_PACKET_SIZE :: nat where
  "UDP_PACKET_SIZE = 4096"

definition DNS_COMPRESSION_BITS :: "8 word" where
  "DNS_COMPRESSION_BITS = 0xC0"

definition DNS_D_MAXLABEL :: nat where
  "DNS_D_MAXLABEL = 63"

definition DNS_D_MAXNAME :: nat where
  "DNS_D_MAXNAME = 253"

subsection \<open>Request lifecycle states\<close>

text \<open>\<^verbatim>\<open>enum rdns_request_state\<close>: eight enumerators. The first two carry explicit
  values, the others continue the count as C numbers them.\<close>

datatype rdns_request_state =
    RDNS_REQUEST_NEW
  | RDNS_REQUEST_REGISTERED
  | RDNS_REQUEST_WAIT_SEND
  | RDNS_REQUEST_WAIT_REPLY
  | RDNS_REQUEST_REPLIED
  | RDNS_REQUEST_FAKE
  | RDNS_REQUEST_ERROR
  | RDNS_REQUEST_TCP

fun rdns_request_state_value :: "rdns_request_state \<Rightarrow> int" where
  "rdns_request_state_value RDNS_REQUEST_NEW = 0"
| "rdns_request_state_value RDNS_REQUEST_REGISTERED = 1"
| "rdns_request_state_value RDNS_REQUEST_WAIT_SEND = 2"
| "rdns_request_state_value RDNS_REQUEST_WAIT_REPLY = 3"
| "rdns_request_state_value RDNS_REQUEST_REPLIED = 4"
| "rdns_request_state_value RDNS_REQUEST_FAKE = 5"
| "rdns_request_state_value RDNS_REQUEST_ERROR = 6"
| "rdns_request_state_value RDNS_REQUEST_TCP = 7"

text \<open>The enumerators in declaration order.\<close>

definition rdns_request_states :: "rdns_request_state list" where
  "rdns_request_states =
     [RDNS_REQUEST_NEW, RDNS_REQUEST_REGISTERED, RDNS_REQUEST_WAIT_SEND,
      RDNS_REQUEST_WAIT_REPLY, RDNS_REQUEST_REPLIED, RDNS_REQUEST_FAKE,
      RDNS_REQUEST_ERROR, RDNS_REQUEST_TCP]"

subsection \<open>Request types and wire type codes\<close>

text \<open>
  \<^verbatim>\<open>enum rdns_request_type\<close> is declared in the public header rdns.h; this header uses
  eleven of its enumerators. Their numeric values are not given here, so every function
  that needs them takes the numbering \<open>rv\<close> as an argument.
\<close>

datatype rdns_request_type =
    RDNS_REQUEST_A
  | RDNS_REQUEST_NS
  | RDNS_REQUEST_SOA
  | RDNS_REQUEST_PTR
  | RDNS_REQUEST_MX
  | RDNS_REQUEST_TXT
  | RDNS_REQUEST_AAAA
  | RDNS_REQUEST_SRV
  | RDNS_REQUEST_TLSA
  | RDNS_REQUEST_SPF
  | RDNS_REQUEST_ANY

text \<open>\<^verbatim>\<open>enum dns_type\<close>: fourteen enumerators, eleven of them initialised from a request
  type and three from a literal.\<close>

datatype dns_type =
    DNS_T_A
  | DNS_T_NS
  | DNS_T_CNAME
  | DNS_T_SOA
  | DNS_T_PTR
  | DNS_T_MX
  | DNS_T_TXT
  | DNS_T_AAAA
  | DNS_T_SRV
  | DNS_T_OPT
  | DNS_T_SSHFP
  | DNS_T_TLSA
  | DNS_T_SPF
  | DNS_T_ALL

fun dns_type_value :: "(rdns_request_type \<Rightarrow> int) \<Rightarrow> dns_type \<Rightarrow> int" where
  "dns_type_value rv DNS_T_A = rv RDNS_REQUEST_A"
| "dns_type_value rv DNS_T_NS = rv RDNS_REQUEST_NS"
| "dns_type_value rv DNS_T_CNAME = 5"
| "dns_type_value rv DNS_T_SOA = rv RDNS_REQUEST_SOA"
| "dns_type_value rv DNS_T_PTR = rv RDNS_REQUEST_PTR"
| "dns_type_value rv DNS_T_MX = rv RDNS_REQUEST_MX"
| "dns_type_value rv DNS_T_TXT = rv RDNS_REQUEST_TXT"
| "dns_type_value rv DNS_T_AAAA = rv RDNS_REQUEST_AAAA"
| "dns_type_value rv DNS_T_SRV = rv RDNS_REQUEST_SRV"
| "dns_type_value rv DNS_T_OPT = 41"
| "dns_type_value rv DNS_T_SSHFP = 44"
| "dns_type_value rv DNS_T_TLSA = rv RDNS_REQUEST_TLSA"
| "dns_type_value rv DNS_T_SPF = rv RDNS_REQUEST_SPF"
| "dns_type_value rv DNS_T_ALL = rv RDNS_REQUEST_ANY"

text \<open>The wire type that carries a request type: the enumerator of \<^verbatim>\<open>dns_type\<close> whose
  initialiser names it (\<^verbatim>\<open>DNS_T_ALL\<close> for \<^verbatim>\<open>RDNS_REQUEST_ANY\<close>).\<close>

fun dns_type_of_request :: "rdns_request_type \<Rightarrow> dns_type" where
  "dns_type_of_request RDNS_REQUEST_A = DNS_T_A"
| "dns_type_of_request RDNS_REQUEST_NS = DNS_T_NS"
| "dns_type_of_request RDNS_REQUEST_SOA = DNS_T_SOA"
| "dns_type_of_request RDNS_REQUEST_PTR = DNS_T_PTR"
| "dns_type_of_request RDNS_REQUEST_MX = DNS_T_MX"
| "dns_type_of_request RDNS_REQUEST_TXT = DNS_T_TXT"
| "dns_type_of_request RDNS_REQUEST_AAAA = DNS_T_AAAA"
| "dns_type_of_request RDNS_REQUEST_SRV = DNS_T_SRV"
| "dns_type_of_request RDNS_REQUEST_TLSA = DNS_T_TLSA"
| "dns_type_of_request RDNS_REQUEST_SPF = DNS_T_SPF"
| "dns_type_of_request RDNS_REQUEST_ANY = DNS_T_ALL"

subsection \<open>The request\<close>

text \<open>
  \<^verbatim>\<open>struct rdns_request\<close>. The pointers to the resolver, the event context, the reply
  and the plugin data are opaque to this header and left out, as are the callback pair
  \<^verbatim>\<open>func\<close>/\<^verbatim>\<open>arg\<close> and the floating-point \<^verbatim>\<open>timeout\<close>. The channel pointer
  \<^verbatim>\<open>io\<close> is a handle, \<open>None\<close> for the null pointer. The C names \<^verbatim>\<open>type\<close> and
  \<^verbatim>\<open>id\<close> are written \<open>rtype\<close> and \<open>req_id\<close>.
\<close>

record rdns_request =
  io :: "nat option"
  rtype :: rdns_request_type
  retransmits :: nat
  req_id :: int
  requested_names :: "string list"
  qcount :: nat
  state :: rdns_request_state
  packet :: "8 word list"
  pos :: nat
  packet_len :: nat

subsection \<open>The DNS header as a struct of bit-fields\<close>

text \<open>
  \<^verbatim>\<open>struct dns_header\<close> lists its bit-fields twice, once per value of \<^verbatim>\<open>BYTE_ORDER\<close>.
  A bit-field is its name and its width; all are declared \<^verbatim>\<open>unsigned int\<close>.
\<close>

datatype byte_order = BIG_ENDIAN | LITTLE_ENDIAN

type_synonym bitfield = "string \<times> nat"

definition dns_header :: "byte_order \<Rightarrow> bitfield list" where
  "dns_header bo =
     [(''qid'', 16)] @
     (case bo of
        BIG_ENDIAN \<Rightarrow>
          [(''qr'', 1), (''opcode'', 4), (''aa'', 1), (''tc'', 1), (''rd'', 1),
           (''ra'', 1), (''cd'', 1), (''ad'', 1), (''z'', 1), (''rcode'', 4)]
      | LITTLE_ENDIAN \<Rightarrow>
          [(''rd'', 1), (''tc'', 1), (''aa'', 1), (''opcode'', 4), (''qr'', 1),
           (''rcode'', 4), (''z'', 1), (''ad'', 1), (''cd'', 1), (''ra'', 1)]) @
     [(''qdcount'', 16), (''ancount'', 16), (''nscount'', 16), (''arcount'', 16)]"

text \<open>
  How a compiler lays bit-fields out is the platform's rule. The two branches of the
  declaration are written for the usual one (that of GCC and Clang on the System V
  ABIs), which is the rule modelled here: consecutive bit-fields are packed into storage units of the declared type (32 bits
  for \<^verbatim>\<open>unsigned int\<close>), a field that does not fit the rest of a unit starts the next
  one, a big-endian target fills a unit from its most significant bit and a
  little-endian target from its least significant bit, and the unit is stored in memory
  in the target's byte order.
\<close>

definition storage_unit_bits :: nat where
  "storage_unit_bits = 32"

text \<open>\<open>pack_units used cur fs\<close>: the fields \<open>fs\<close> packed in declaration order, \<open>cur\<close> being
  the fields of the unit under construction and \<open>used\<close> its bits taken. A unit left
  incomplete is closed by an unnamed padding field.\<close>

definition close_unit :: "nat \<Rightarrow> bitfield list \<Rightarrow> bitfield list" where
  "close_unit used cur =
     (if used < storage_unit_bits then cur @ [([], storage_unit_bits - used)] else cur)"

fun pack_units :: "nat \<Rightarrow> bitfield list \<Rightarrow> bitfield list \<Rightarrow> bitfield list list" where
  "pack_units used cur [] = (if cur = [] then [] else [close_unit used cur])"
| "pack_units used cur ((n, w) # fs) =
     (if used + w \<le> storage_unit_bits then pack_units (used + w) (cur @ [(n, w)]) fs
      else close_unit used cur # pack_units w [(n, w)] fs)"

text \<open>A bit of the image is labelled with the field it belongs to and its significance
  within the field's value. The bits of one field, most significant first:\<close>

definition field_bits :: "bitfield \<Rightarrow> (string \<times> nat) list" where
  "field_bits f = map (\<lambda>j. (fst f, j)) (rev [0..<snd f])"

text \<open>The bits of a storage unit from its most significant to its least significant.\<close>

definition unit_bits :: "byte_order \<Rightarrow> bitfield list \<Rightarrow> (string \<times> nat) list" where
  "unit_bits bo fs =
     concat (map field_bits (case bo of BIG_ENDIAN \<Rightarrow> fs | LITTLE_ENDIAN \<Rightarrow> rev fs))"

fun chunks8 :: "'a list \<Rightarrow> 'a list list" where
  "chunks8 (a # b # c # d # e # f # g # h # xs) = [a, b, c, d, e, f, g, h] # chunks8 xs"
| "chunks8 xs = (if xs = [] then [] else [xs])"

text \<open>The bytes of a storage unit in memory order, each from bit 7 down to bit 0.\<close>

definition unit_bytes :: "byte_order \<Rightarrow> bitfield list \<Rightarrow> (string \<times> nat) list list" where
  "unit_bytes bo fs =
     (case bo of
        BIG_ENDIAN \<Rightarrow> chunks8 (unit_bits bo fs)
      | LITTLE_ENDIAN \<Rightarrow> rev (chunks8 (unit_bits bo fs)))"

text \<open>The memory image of \<^verbatim>\<open>struct dns_header\<close> on a target of byte order \<open>bo\<close>: byte
  by byte in address order, which is the order of the bytes on the wire when the struct
  is laid over a received message.\<close>

definition dns_header_image :: "byte_order \<Rightarrow> (string \<times> nat) list list" where
  "dns_header_image bo = concat (map (unit_bytes bo) (pack_units 0 [] (dns_header bo)))"

text \<open>Reading a member through the overlay: the value the bits labelled with the
  member's name spell in the message bytes. A message shorter than the struct has no
  header to read.\<close>

definition byte_member_bits :: "string \<Rightarrow> (string \<times> nat) list \<Rightarrow> 8 word \<Rightarrow> nat" where
  "byte_member_bits name labels b =
     sum_list (map (\<lambda>(l, k). if fst l = name \<and> bit b k then 2 ^ snd l else 0)
                   (zip labels (rev [0..<8])))"

definition dns_header_member :: "byte_order \<Rightarrow> 8 word list \<Rightarrow> string \<Rightarrow> nat option" where
  "dns_header_member bo msg name =
     (if length msg < length (dns_header_image bo) then None
      else Some (sum_list (map (\<lambda>(labels, b). byte_member_bits name labels b)
                               (zip (dns_header_image bo) msg))))"

text \<open>The width a member has in the image, and the bytes of the image that hold a bit
  of it.\<close>

definition member_width :: "byte_order \<Rightarrow> string \<Rightarrow> nat" where
  "member_width bo name =
     length (filter (\<lambda>l. fst l = name) (concat (dns_header_image bo)))"

definition member_bytes :: "byte_order \<Rightarrow> string \<Rightarrow> nat list" where
  "member_bytes bo name =
     map fst (filter (\<lambda>(i, labels). name \<in> fst ` set labels)
                     (zip [0..<length (dns_header_image bo)] (dns_header_image bo)))"

subsection \<open>TCP framing state\<close>

text \<open>
  \<^verbatim>\<open>struct rdns_tcp_output_chain\<close>: one planned write. The header's comments say that
  \<^verbatim>\<open>next_write_size\<close> is kept in network byte order and that \<^verbatim>\<open>cur_write\<close> counts the
  bytes written including those of \<^verbatim>\<open>next_write_size\<close>. The links \<^verbatim>\<open>prev\<close>/\<^verbatim>\<open>next\<close> of
  the chain are the order of the list the entries are held in.
\<close>

record rdns_tcp_output_chain =
  next_write_size :: "16 word"
  cur_write :: "16 word"
  write_buf :: "8 word list"

text \<open>
  \<^verbatim>\<open>struct rdns_tcp_channel\<close>. \<^verbatim>\<open>next_read_size\<close> is in network byte order while it is
  read and in host byte order afterwards; \<^verbatim>\<open>cur_read\<close> counts the bytes read including
  those of \<^verbatim>\<open>next_read_size\<close>. The read buffer is held as the bytes stored in it so far
  and its capacity \<^verbatim>\<open>read_buf_allocated\<close>. The two event handles are opaque and left
  out.
\<close>

record rdns_tcp_channel =
  next_read_size :: "16 word"
  cur_read :: "16 word"
  cur_read_buf :: "8 word list"
  read_buf_allocated :: nat
  output_chain :: "rdns_tcp_output_chain list"
  cur_output_chains :: nat

subsection \<open>16-bit objects in memory\<close>

text \<open>The two bytes of a \<^verbatim>\<open>uint16_t\<close> object in address order, and the value two bytes
  in address order hold, on a host of byte order \<open>bo\<close>.\<close>

definition u16_hi :: "16 word \<Rightarrow> 8 word" where
  "u16_hi w = of_nat (unat w div 256)"

definition u16_lo :: "16 word \<Rightarrow> 8 word" where
  "u16_lo w = of_nat (unat w mod 256)"

definition u16_make :: "8 word \<Rightarrow> 8 word \<Rightarrow> 16 word" where
  "u16_make hi lo = of_nat (256 * unat hi + unat lo)"

definition u16_bytes :: "byte_order \<Rightarrow> 16 word \<Rightarrow> 8 word list" where
  "u16_bytes bo w =
     (case bo of
        BIG_ENDIAN \<Rightarrow> [u16_hi w, u16_lo w]
      | LITTLE_ENDIAN \<Rightarrow> [u16_lo w, u16_hi w])"

definition u16_of_bytes :: "byte_order \<Rightarrow> 8 word list \<Rightarrow> 16 word" where
  "u16_of_bytes bo m =
     (case bo of
        BIG_ENDIAN \<Rightarrow> u16_make (m ! 0) (m ! 1)
      | LITTLE_ENDIAN \<Rightarrow> u16_make (m ! 1) (m ! 0))"

text \<open>The C library's \<^verbatim>\<open>htons\<close> and \<^verbatim>\<open>ntohs\<close>: the identity on a big-endian host, the
  exchange of the two bytes on a little-endian one.\<close>

definition htons :: "byte_order \<Rightarrow> 16 word \<Rightarrow> 16 word" where
  "htons bo w = (case bo of BIG_ENDIAN \<Rightarrow> w | LITTLE_ENDIAN \<Rightarrow> u16_make (u16_lo w) (u16_hi w))"

definition ntohs :: "byte_order \<Rightarrow> 16 word \<Rightarrow> 16 word" where
  "ntohs bo w = (case bo of BIG_ENDIAN \<Rightarrow> w | LITTLE_ENDIAN \<Rightarrow> u16_make (u16_lo w) (u16_hi w))"

subsection \<open>TCP framing: the write path\<close>

text \<open>Following the spec's words (section 6, ``every message on a TCP connection is
  preceded by a 2-byte big-endian length field giving the byte length of the following
  DNS message''): a frame as the peer is to see it, against which the model of the
  write and read paths is compared. A length that does not fit 16 bits loses its upper
  bits.\<close>

definition tcp_frame :: "8 word list \<Rightarrow> 8 word list" where
  "tcp_frame pkt =
     [of_nat (length pkt div 256 mod 256), of_nat (length pkt mod 256)] @ pkt"

text \<open>The bytes an entry of the chain stands for: the two bytes of \<^verbatim>\<open>next_write_size\<close>
  as they lie in memory, then the buffer; and the part of them not written yet.\<close>

definition entry_bytes :: "byte_order \<Rightarrow> rdns_tcp_output_chain \<Rightarrow> 8 word list" where
  "entry_bytes bo e = u16_bytes bo (next_write_size e) @ write_buf e"

definition entry_rest :: "byte_order \<Rightarrow> rdns_tcp_output_chain \<Rightarrow> 8 word list" where
  "entry_rest bo e = drop (unat (cur_write e)) (entry_bytes bo e)"

text \<open>
  Modelled from the spec: the functions that queue and flush TCP writes (resolver.c) are
  not among the sources. Section 4.3: a packet queued for write on a TCP channel is
  ``appended to the channel's outgoing frame chain with its 2-byte length prefix''.
  The new entry is the last of the chain and nothing of it is written.
\<close>

definition tcp_enqueue :: "byte_order \<Rightarrow> 8 word list \<Rightarrow> rdns_tcp_channel \<Rightarrow> rdns_tcp_channel" where
  "tcp_enqueue bo pkt ch =
     ch\<lparr>output_chain := output_chain ch @
           [\<lparr>next_write_size = htons bo (of_nat (length pkt)), cur_write = 0,
             write_buf = pkt\<rparr>],
        cur_output_chains := cur_output_chains ch + 1\<rparr>"

text \<open>
  Modelled from the spec: section 4.4, ``the outgoing chain is flushed in FIFO order;
  partial writes update a per-entry byte-written counter; an entry is evicted only once
  fully written''. \<open>flush_chain bo n es\<close> is one flush during which the socket accepts
  \<open>n\<close> bytes: the new chain and the bytes handed to the socket. The counter is the
  16-bit \<^verbatim>\<open>cur_write\<close> and wraps as a \<^verbatim>\<open>uint16_t\<close> does.
\<close>

fun flush_chain ::
  "byte_order \<Rightarrow> nat \<Rightarrow> rdns_tcp_output_chain list
     \<Rightarrow> rdns_tcp_output_chain list \<times> 8 word list" where
  "flush_chain bo n [] = ([], [])"
| "flush_chain bo n (e # es) =
     (if length (entry_rest bo e) \<le> n then
        (case flush_chain bo (n - length (entry_rest bo e)) es of
           (es', out) \<Rightarrow> (es', entry_rest bo e @ out))
      else if n = 0 then (e # es, [])
      else (e\<lparr>cur_write := cur_write e + of_nat n\<rparr> # es, take n (entry_rest bo e)))"

text \<open>Modelled from the spec: the handler of write readiness (section 4.4, as above):
  one flush of the channel's chain, with the count of planned writes kept in step.\<close>

definition tcp_write_ready ::
  "byte_order \<Rightarrow> nat \<Rightarrow> rdns_tcp_channel \<Rightarrow> rdns_tcp_channel \<times> 8 word list" where
  "tcp_write_ready bo n ch =
     (case flush_chain bo n (output_chain ch) of
        (es', out) \<Rightarrow>
          (ch\<lparr>output_chain := es',
              cur_output_chains :=
                cur_output_chains ch - (length (output_chain ch) - length es')\<rparr>,
           out))"

text \<open>A history of the write side: packets queued and flushes of given acceptance, in
  any interleaving. \<open>tcp_write_run\<close> carries the channel and the bytes the peer has
  received so far; \<open>enqueued\<close> lists the packets of a history in the order queued.\<close>

datatype tcp_write_op = Enqueue "8 word list" | Writable nat

fun tcp_write_run ::
  "byte_order \<Rightarrow> tcp_write_op list \<Rightarrow> rdns_tcp_channel \<times> 8 word list
     \<Rightarrow> rdns_tcp_channel \<times> 8 word list" where
  "tcp_write_run bo [] s = s"
| "tcp_write_run bo (Enqueue pkt # ops) (ch, wire) =
     tcp_write_run bo ops (tcp_enqueue bo pkt ch, wire)"
| "tcp_write_run bo (Writable n # ops) (ch, wire) =
     (case tcp_write_ready bo n ch of
        (ch', out) \<Rightarrow> tcp_write_run bo ops (ch', wire @ out))"

fun enqueued :: "tcp_write_op list \<Rightarrow> 8 word list list" where
  "enqueued [] = []"
| "enqueued (Enqueue pkt # ops) = pkt # enqueued ops"
| "enqueued (Writable n # ops) = enqueued ops"

text \<open>The bytes of a chain still to be written.\<close>

definition pending :: "byte_order \<Rightarrow> rdns_tcp_output_chain list \<Rightarrow> 8 word list" where
  "pending bo es = concat (map (entry_rest bo) es)"

text \<open>A channel on which nothing is received and nothing queued yet.\<close>

definition tcp_channel_new :: rdns_tcp_channel where
  "tcp_channel_new =
     \<lparr>next_read_size = 0, cur_read = 0, cur_read_buf = [], read_buf_allocated = 0,
      output_chain = [], cur_output_chains = 0\<rparr>"

text \<open>
  The state of a chain between two operations. An entry is well formed when its length
  member is the network-order length of its buffer, the buffer and its prefix fit the
  16-bit counter, and the entry is not written to its end. In a well-formed chain only
  the first entry may be partly written.
\<close>

definition entry_ok :: "byte_order \<Rightarrow> rdns_tcp_output_chain \<Rightarrow> bool" where
  "entry_ok bo e =
     (next_write_size e = htons bo (of_nat (length (write_buf e)))
      \<and> length (write_buf e) + 2 < 65536
      \<and> unat (cur_write e) < length (write_buf e) + 2)"

definition chain_ok :: "byte_order \<Rightarrow> rdns_tcp_output_chain list \<Rightarrow> bool" where
  "chain_ok bo es = (list_all (entry_ok bo) es \<and> list_all (\<lambda>e. cur_write e = 0) (tl es))"

text \<open>The bytes of the chain's first entry that are written already.\<close>

fun chain_written :: "byte_order \<Rightarrow> rdns_tcp_output_chain list \<Rightarrow> 8 word list" where
  "chain_written bo [] = []"
| "chain_written bo (e # es) = take (unat (cur_write e)) (entry_bytes bo e)"

text \<open>What holds of a channel and the bytes received by the peer after the packets
  \<open>enq\<close> have been queued: the chain is the tail of \<open>enq\<close> not evicted yet, in order,
  and the peer holds the frames of the evicted packets followed by the written part of
  the first entry.\<close>

definition write_inv ::
  "byte_order \<Rightarrow> 8 word list list \<Rightarrow> rdns_tcp_channel \<times> 8 word list \<Rightarrow> bool" where
  "write_inv bo enq s =
     (case s of (ch, wire) \<Rightarrow>
        chain_ok bo (output_chain ch)
        \<and> length (output_chain ch) \<le> length enq
        \<and> map write_buf (output_chain ch)
            = drop (length enq - length (output_chain ch)) enq
        \<and> wire = concat (map tcp_frame (take (length enq - length (output_chain ch)) enq))
                   @ chain_written bo (output_chain ch))"

subsection \<open>TCP framing: the read path\<close>

text \<open>
  Modelled from the spec: the function that reads from a TCP channel (resolver.c) is not
  among the sources. Section 4.4: ``maintain accumulated byte count against the expected
  frame length; first 2 bytes received are the big-endian length prefix -- once both
  length bytes are available, allocate/grow the read buffer to that length and continue
  accumulating; once the full frame is accumulated, \<dots> deliver the frame, and reset
  framing state for the next message.'' With the header's comments: the two length
  bytes are stored into the memory of \<^verbatim>\<open>next_read_size\<close> as they arrive, which leaves it
  in network byte order, and it is converted to host byte order when the second has
  arrived; \<^verbatim>\<open>cur_read\<close> counts the length bytes too and is a \<^verbatim>\<open>uint16_t\<close>.

  \<open>tcp_read_byte bo b ch\<close> takes one received byte: the new channel and the message
  that this byte completes, if it completes one.
\<close>

definition tcp_read_byte ::
  "byte_order \<Rightarrow> 8 word \<Rightarrow> rdns_tcp_channel \<Rightarrow> rdns_tcp_channel \<times> 8 word list option" where
  "tcp_read_byte bo b ch =
     (if unat (cur_read ch) < 2 then
        (let raw = u16_of_bytes bo ((u16_bytes bo (next_read_size ch))[unat (cur_read ch) := b])
         in if unat (cur_read ch) = 0 then (ch\<lparr>next_read_size := raw, cur_read := 1\<rparr>, None)
            else (let sz = ntohs bo raw
                  in if sz = 0 then (ch\<lparr>next_read_size := sz, cur_read := 0\<rparr>, Some [])
                     else (ch\<lparr>next_read_size := sz, cur_read := 2, cur_read_buf := [],
                              read_buf_allocated := max (read_buf_allocated ch) (unat sz)\<rparr>,
                           None)))
      else
        (let buf = cur_read_buf ch @ [b]; n = cur_read ch + 1
         in if unat n = unat (next_read_size ch) + 2
            then (ch\<lparr>cur_read := 0, cur_read_buf := []\<rparr>, Some buf)
            else (ch\<lparr>cur_read := n, cur_read_buf := buf\<rparr>, None)))"

text \<open>Modelled from the spec: section 4.4, ``multiple complete frames may arrive in one
  socket read and must be processed in order without dropping any''. \<open>tcp_read\<close> takes
  the bytes of one or several socket reads in order: the channel afterwards and the
  messages delivered, in order of completion.\<close>

fun tcp_read ::
  "byte_order \<Rightarrow> 8 word list \<Rightarrow> rdns_tcp_channel \<Rightarrow> rdns_tcp_channel \<times> 8 word list list" where
  "tcp_read bo [] ch = (ch, [])"
| "tcp_read bo (b # bs) ch =
     (case tcp_read_byte bo b ch of
        (ch1, d) \<Rightarrow>
          (case tcp_read bo bs ch1 of
             (ch2, ms) \<Rightarrow> (ch2, (case d of None \<Rightarrow> [] | Some m \<Rightarrow> [m]) @ ms)))"

text \<open>The bytes received of the one message in progress, as the channel's three
  members hold them: nothing, the first length byte in the memory of
  \<^verbatim>\<open>next_read_size\<close>, or the length (in host byte order by then) and the buffer.\<close>

definition tcp_incoming :: "byte_order \<Rightarrow> rdns_tcp_channel \<Rightarrow> 8 word list" where
  "tcp_incoming bo ch =
     (if unat (cur_read ch) = 0 then []
      else if unat (cur_read ch) = 1 then [u16_bytes bo (next_read_size ch) ! 0]
      else [u16_hi (next_read_size ch), u16_lo (next_read_size ch)] @ cur_read_buf ch)"

text \<open>The read state between two bytes: once the length is known, the counter is the
  two length bytes plus the bytes buffered, the frame is not complete, and it fits the
  16-bit counter.\<close>

definition read_ok :: "rdns_tcp_channel \<Rightarrow> bool" where
  "read_ok ch =
     (unat (cur_read ch) < 2
      \<or> (unat (cur_read ch) = length (cur_read_buf ch) + 2
          \<and> length (cur_read_buf ch) < unat (next_read_size ch)
          \<and> unat (next_read_size ch) + 2 < 65536))"

text \<open>No frame of the input announces more than 65533 bytes: whenever a byte completes a
  length prefix, the length and its two bytes fit the 16-bit counter.\<close>

fun announces_ok :: "byte_order \<Rightarrow> 8 word list \<Rightarrow> rdns_tcp_channel \<Rightarrow> bool" where
  "announces_ok bo [] ch = True"
| "announces_ok bo (b # bs) ch =
     ((unat (cur_read ch) \<noteq> 1
        \<or> unat (u16_make (u16_bytes bo (next_read_size ch) ! 0) b) + 2 < 65536)
      \<and> (case tcp_read_byte bo b ch of (ch1, d) \<Rightarrow> announces_ok bo bs ch1))"

subsection \<open>TCP framing: what holds of every channel\<close>


text \<open>An entry whose length member is the network-order length of its buffer, as
  every queued entry is.\<close>

definition entry_framed :: "byte_order \<Rightarrow> rdns_tcp_output_chain \<Rightarrow> bool" where
  "entry_framed bo e = (next_write_size e = htons bo (of_nat (length (write_buf e))))"


subsection \<open>The request lifecycle\<close>

text \<open>
  Modelled from the spec: the functions that move a request through its states
  (resolver.c) are not among the sources; the header gives the states and the structs
  only. The model follows one request. \<open>index\<close> is the request index of the channel the
  request is assigned to, from transaction id to the request registered under it
  (\<^verbatim>\<open>rdns_requests_hash\<close>, from \<^verbatim>\<open>int\<close> to a request pointer); \<open>self\<close> is the request's
  own pointer; \<open>invoked\<close> counts the calls of the continuation \<^verbatim>\<open>func\<close>; \<open>cancelled\<close>
  records that the last external reference was released before a terminal state.
\<close>

record request_life =
  rq :: rdns_request
  self :: nat
  index :: "int \<rightharpoonup> nat"
  invoked :: nat
  cancelled :: bool

text \<open>What can happen to a request, after section 4.3 (transitions), 4.5 (fake replies)
  and 5 (cancellation) of the spec.\<close>

datatype request_event =
    Ev_register bool
  | Ev_fake_hit
  | Ev_fake_deliver
  | Ev_queue_write
  | Ev_flushed
  | Ev_reply
  | Ev_truncated
  | Ev_timeout
  | Ev_transport_error
  | Ev_malformed_reply
  | Ev_cancel

definition terminal :: "rdns_request_state \<Rightarrow> bool" where
  "terminal st = (st = RDNS_REQUEST_REPLIED \<or> st = RDNS_REQUEST_ERROR)"

definition registered :: "request_life \<Rightarrow> bool" where
  "registered s = (index s (req_id (rq s)) = Some (self s))"

definition set_state :: "rdns_request_state \<Rightarrow> request_life \<Rightarrow> request_life" where
  "set_state st s = s\<lparr>rq := (rq s)\<lparr>state := st\<rparr>\<rparr>"

text \<open>Modelled from the spec: taking the request out of the index it is registered in
  (section 3: ``the Request's membership in the channel's index IS its registration'').\<close>

definition deregister :: "request_life \<Rightarrow> request_life" where
  "deregister s =
     (if registered s then s\<lparr>index := (index s)(req_id (rq s) := None)\<rparr> else s)"

text \<open>Modelled from the spec: section 4.3, ``Terminal states (REPLIED, ERROR) deregister
  the request from its channel's index and invoke the continuation exactly once''.\<close>

definition finish :: "rdns_request_state \<Rightarrow> request_life \<Rightarrow> request_life" where
  "finish st s = (set_state st (deregister s))\<lparr>invoked := invoked s + 1\<rparr>"

text \<open>
  Modelled from the spec: the transitions of section 4.3, by event and current state;
  \<open>maxr\<close> is the configured maximum of retransmits.
  \<^item> NEW to REGISTERED: ``request inserted into a channel's index keyed by transaction
    id; fails with a resource error if the channel/index cannot accept it''; a resource
    error fails the request immediately (section 7). The index accepts the request when
    the event says so and the transaction id is free.
  \<^item> NEW to FAKE on a hit in the fake registry, FAKE to the terminal state with the
    stored reply, ``with no socket interaction''.
  \<^item> REGISTERED (or TCP, which ``restarts the WAIT_SEND/WAIT_REPLY cycle'') to WAIT_SEND:
    packet queued for write. WAIT_SEND to WAIT_REPLY: packet flushed.
  \<^item> WAIT_REPLY to REPLIED on a matching reply, to TCP on a truncated one, to ERROR on a
    malformed one; on a timeout back to WAIT_SEND while the retransmit counter is below
    the maximum (``counter increments''), to ERROR otherwise.
  \<^item> Any state to ERROR on a transport failure.
  \<^item> Cancellation ``must deregister it from its channel without invoking the
    continuation''.
  \<^item> Every other pair of event and state changes nothing.
\<close>

fun request_transition ::
  "nat \<Rightarrow> request_event \<Rightarrow> rdns_request_state \<Rightarrow> request_life \<Rightarrow> request_life" where
  "request_transition maxr (Ev_register ok) RDNS_REQUEST_NEW s =
     (if ok \<and> index s (req_id (rq s)) = None
      then set_state RDNS_REQUEST_REGISTERED
             (s\<lparr>index := (index s)(req_id (rq s) \<mapsto> self s)\<rparr>)
      else finish RDNS_REQUEST_ERROR s)"
| "request_transition maxr Ev_fake_hit RDNS_REQUEST_NEW s = set_state RDNS_REQUEST_FAKE s"
| "request_transition maxr Ev_fake_deliver RDNS_REQUEST_FAKE s = finish RDNS_REQUEST_REPLIED s"
| "request_transition maxr Ev_queue_write RDNS_REQUEST_REGISTERED s =
     set_state RDNS_REQUEST_WAIT_SEND s"
| "request_transition maxr Ev_queue_write RDNS_REQUEST_TCP s =
     set_state RDNS_REQUEST_WAIT_SEND s"
| "request_transition maxr Ev_flushed RDNS_REQUEST_WAIT_SEND s =
     set_state RDNS_REQUEST_WAIT_REPLY s"
| "request_transition maxr Ev_reply RDNS_REQUEST_WAIT_REPLY s = finish RDNS_REQUEST_REPLIED s"
| "request_transition maxr Ev_truncated RDNS_REQUEST_WAIT_REPLY s =
     set_state RDNS_REQUEST_TCP s"
| "request_transition maxr Ev_malformed_reply RDNS_REQUEST_WAIT_REPLY s =
     finish RDNS_REQUEST_ERROR s"
| "request_transition maxr Ev_timeout RDNS_REQUEST_WAIT_REPLY s =
     (if retransmits (rq s) < maxr
      then set_state RDNS_REQUEST_WAIT_SEND
             (s\<lparr>rq := (rq s)\<lparr>retransmits := retransmits (rq s) + 1\<rparr>\<rparr>)
      else finish RDNS_REQUEST_ERROR s)"
| "request_transition maxr Ev_transport_error st s = finish RDNS_REQUEST_ERROR s"
| "request_transition maxr Ev_cancel st s = (deregister s)\<lparr>cancelled := True\<rparr>"
| "request_transition maxr ev st s = s"

text \<open>Modelled from the spec: a request that is cancelled or in a terminal state is not
  acted upon (section 5: ``check state before acting'').\<close>

definition request_step :: "nat \<Rightarrow> request_event \<Rightarrow> request_life \<Rightarrow> request_life" where
  "request_step maxr ev s =
     (if cancelled s \<or> terminal (state (rq s)) then s
      else request_transition maxr ev (state (rq s)) s)"

fun request_run :: "nat \<Rightarrow> request_event list \<Rightarrow> request_life \<Rightarrow> request_life" where
  "request_run maxr [] s = s"
| "request_run maxr (ev # evs) s = request_run maxr evs (request_step maxr ev s)"

text \<open>A request as created: in state NEW, not in the index, its continuation not called,
  not cancelled.\<close>

definition request_created :: "request_life \<Rightarrow> bool" where
  "request_created s =
     (state (rq s) = RDNS_REQUEST_NEW \<and> \<not> registered s \<and> invoked s = 0 \<and> \<not> cancelled s)"

text \<open>What holds of a request at every moment of its life.\<close>

definition life_inv :: "request_life \<Rightarrow> bool" where
  "life_inv s =
     (invoked s \<le> 1
      \<and> (terminal (state (rq s)) = (invoked s = 1))
      \<and> (invoked s = 1 \<longrightarrow> \<not> registered s)
      \<and> (cancelled s \<longrightarrow> invoked s = 0 \<and> \<not> registered s)
      \<and> (state (rq s) = RDNS_REQUEST_NEW \<or> state (rq s) = RDNS_REQUEST_FAKE
            \<longrightarrow> \<not> registered s))"

text \<open>A request for the A record of one name with transaction id 7, as created, and
  the index of an idle channel.\<close>

definition request_example :: request_life where
  "request_example =
     \<lparr>rq = \<lparr>io = None, rtype = RDNS_REQUEST_A, retransmits = 0, req_id = 7,
             requested_names = [''example.com''], qcount = 1, state = RDNS_REQUEST_NEW,
             packet = [], pos = 0, packet_len = 0\<rparr>,
      self = 1, index = Map.empty, invoked = 0, cancelled = False\<rparr>"

section \<open>Theorems\<close>

subsection \<open>The header image, evaluated\<close>

lemma dns_header_image_BE:
  "dns_header_image BIG_ENDIAN =
    [
     [(''qid'', 15), (''qid'', 14), (''qid'', 13), (''qid'', 12), (''qid'', 11),
      (''qid'', 10), (''qid'', 9), (''qid'', 8)],
     [(''qid'', 7), (''qid'', 6), (''qid'', 5), (''qid'', 4), (''qid'', 3), (''qid'', 2),
      (''qid'', 1), (''qid'', 0)],
     [(''qr'', 0), (''opcode'', 3), (''opcode'', 2), (''opcode'', 1), (''opcode'', 0),
      (''aa'', 0), (''tc'', 0), (''rd'', 0)],
     [(''ra'', 0), (''cd'', 0), (''ad'', 0), (''z'', 0), (''rcode'', 3), (''rcode'', 2),
      (''rcode'', 1), (''rcode'', 0)],
     [(''qdcount'', 15), (''qdcount'', 14), (''qdcount'', 13), (''qdcount'', 12),
      (''qdcount'', 11), (''qdcount'', 10), (''qdcount'', 9), (''qdcount'', 8)],
     [(''qdcount'', 7), (''qdcount'', 6), (''qdcount'', 5), (''qdcount'', 4),
      (''qdcount'', 3), (''qdcount'', 2), (''qdcount'', 1), (''qdcount'', 0)],
     [(''ancount'', 15), (''ancount'', 14), (''ancount'', 13), (''ancount'', 12),
      (''ancount'', 11), (''ancount'', 10), (''ancount'', 9), (''ancount'', 8)],
     [(''ancount'', 7), (''ancount'', 6), (''ancount'', 5), (''ancount'', 4),
      (''ancount'', 3), (''ancount'', 2), (''ancount'', 1), (''ancount'', 0)],
     [(''nscount'', 15), (''nscount'', 14), (''nscount'', 13), (''nscount'', 12),
      (''nscount'', 11), (''nscount'', 10), (''nscount'', 9), (''nscount'', 8)],
     [(''nscount'', 7), (''nscount'', 6), (''nscount'', 5), (''nscount'', 4),
      (''nscount'', 3), (''nscount'', 2), (''nscount'', 1), (''nscount'', 0)],
     [(''arcount'', 15), (''arcount'', 14), (''arcount'', 13), (''arcount'', 12),
      (''arcount'', 11), (''arcount'', 10), (''arcount'', 9), (''arcount'', 8)],
     [(''arcount'', 7), (''arcount'', 6), (''arcount'', 5), (''arcount'', 4),
      (''arcount'', 3), (''arcount'', 2), (''arcount'', 1), (''arcount'', 0)]]"
  by code_simp

lemma dns_header_image_LE:
  "dns_header_image LITTLE_ENDIAN =
    [
     [(''qid'', 7), (''qid'', 6), (''qid'', 5), (''qid'', 4), (''qid'', 3), (''qid'', 2),
      (''qid'', 1), (''qid'', 0)],
     [(''qid'', 15), (''qid'', 14), (''qid'', 13), (''qid'', 12), (''qid'', 11),
      (''qid'', 10), (''qid'', 9), (''qid'', 8)],
     [(''qr'', 0), (''opcode'', 3), (''opcode'', 2), (''opcode'', 1), (''opcode'', 0),
      (''aa'', 0), (''tc'', 0), (''rd'', 0)],
     [(''ra'', 0), (''cd'', 0), (''ad'', 0), (''z'', 0), (''rcode'', 3), (''rcode'', 2),
      (''rcode'', 1), (''rcode'', 0)],
     [(''qdcount'', 7), (''qdcount'', 6), (''qdcount'', 5), (''qdcount'', 4),
      (''qdcount'', 3), (''qdcount'', 2), (''qdcount'', 1), (''qdcount'', 0)],
     [(''qdcount'', 15), (''qdcount'', 14), (''qdcount'', 13), (''qdcount'', 12),
      (''qdcount'', 11), (''qdcount'', 10), (''qdcount'', 9), (''qdcount'', 8)],
     [(''ancount'', 7), (''ancount'', 6), (''ancount'', 5), (''ancount'', 4),
      (''ancount'', 3), (''ancount'', 2), (''ancount'', 1), (''ancount'', 0)],
     [(''ancount'', 15), (''ancount'', 14), (''ancount'', 13), (''ancount'', 12),
      (''ancount'', 11), (''ancount'', 10), (''ancount'', 9), (''ancount'', 8)],
     [(''nscount'', 7), (''nscount'', 6), (''nscount'', 5), (''nscount'', 4),
      (''nscount'', 3), (''nscount'', 2), (''nscount'', 1), (''nscount'', 0)],
     [(''nscount'', 15), (''nscount'', 14), (''nscount'', 13), (''nscount'', 12),
      (''nscount'', 11), (''nscount'', 10), (''nscount'', 9), (''nscount'', 8)],
     [(''arcount'', 7), (''arcount'', 6), (''arcount'', 5), (''arcount'', 4),
      (''arcount'', 3), (''arcount'', 2), (''arcount'', 1), (''arcount'', 0)],
     [(''arcount'', 15), (''arcount'', 14), (''arcount'', 13), (''arcount'', 12),
      (''arcount'', 11), (''arcount'', 10), (''arcount'', 9), (''arcount'', 8)]]"
  by code_simp

subsection \<open>Bytes of 16-bit objects\<close>

lemma unat_u16_hi: "unat (u16_hi w) = unat w div 256"
proof -
  have "unat w < 65536" using unsigned_less[of w, where ?'a=nat] by simp
  then have "unat w div 256 < 256" by simp
  then show ?thesis by (simp add: u16_hi_def unat_of_nat)
qed

lemma unat_u16_lo: "unat (u16_lo w) = unat w mod 256"
  by (simp add: u16_lo_def unat_of_nat)

lemma unat_u16_make: "unat (u16_make hi lo) = 256 * unat hi + unat lo"
proof -
  have "unat hi < 256" "unat lo < 256"
    using unsigned_less[of hi, where ?'a=nat] unsigned_less[of lo, where ?'a=nat] by simp_all
  then have small: "256 * unat hi + unat lo < 65536" by simp
  have "unat (of_nat (256 * unat hi + unat lo) :: 16 word)
          = (256 * unat hi + unat lo) mod 2 ^ LENGTH(16)"
    by (rule unat_of_nat)
  with small show ?thesis by (simp only: u16_make_def) simp
qed

lemma u16_make_hi_lo: "u16_make (u16_hi w) (u16_lo w) = w"
  by (rule word_unat_eq_iff[THEN iffD2]) (simp add: unat_u16_make unat_u16_hi unat_u16_lo)

lemma u16_hi_make: "u16_hi (u16_make hi lo) = hi"
proof -
  have "unat lo < 256" using unsigned_less[of lo, where ?'a=nat] by simp
  then show ?thesis
    by (intro word_unat_eq_iff[THEN iffD2]) (simp add: unat_u16_make unat_u16_hi)
qed

lemma u16_lo_make: "u16_lo (u16_make hi lo) = lo"
proof -
  have "unat lo < 256" using unsigned_less[of lo, where ?'a=nat] by simp
  then show ?thesis
    by (intro word_unat_eq_iff[THEN iffD2]) (simp add: unat_u16_make unat_u16_lo)
qed

lemma u16_of_bytes_bytes: "u16_of_bytes bo (u16_bytes bo w) = w"
  by (cases bo) (simp_all add: u16_of_bytes_def u16_bytes_def u16_make_hi_lo)

lemma u16_bytes_htons: "u16_bytes bo (htons bo w) = [u16_hi w, u16_lo w]"
  by (cases bo) (simp_all add: u16_bytes_def htons_def u16_hi_make u16_lo_make)

lemma ntohs_of_bytes: "ntohs bo (u16_of_bytes bo [b0, b1]) = u16_make b0 b1"
  by (cases bo) (simp_all add: u16_of_bytes_def ntohs_def u16_hi_make u16_lo_make)

lemma length_u16_bytes: "length (u16_bytes bo w) = 2"
  by (cases bo) (simp_all add: u16_bytes_def)

subsection \<open>The write path\<close>

lemma u16_hi_of_nat: "u16_hi (of_nat n) = of_nat (n div 256 mod 256)"
proof -
  have "unat (of_nat n :: 16 word) = n mod 2 ^ LENGTH(16)" by (rule unat_of_nat)
  then have "unat (of_nat n :: 16 word) = n mod 65536" by simp
  moreover have "n mod 65536 div 256 = n div 256 mod 256"
    by (simp add: mod_mult2_eq[of n 256 256, simplified])
  ultimately show ?thesis by (simp only: u16_hi_def)
qed

lemma u16_lo_of_nat: "u16_lo (of_nat n) = of_nat (n mod 256)"
proof -
  have "unat (of_nat n :: 16 word) = n mod 2 ^ LENGTH(16)" by (rule unat_of_nat)
  then have "unat (of_nat n :: 16 word) = n mod 65536" by simp
  moreover have "n mod 65536 mod 256 = n mod 256"
    by (simp add: mod_mod_cancel)
  ultimately show ?thesis by (simp only: u16_lo_def)
qed

lemma entry_bytes_frame:
  "next_write_size e = htons bo (of_nat (length (write_buf e)))
     \<Longrightarrow> entry_bytes bo e = tcp_frame (write_buf e)"
  by (simp add: entry_bytes_def tcp_frame_def u16_bytes_htons u16_hi_of_nat u16_lo_of_nat)

lemma length_tcp_frame: "length (tcp_frame pkt) = length pkt + 2"
  by (simp add: tcp_frame_def)

lemma entry_ok_bytes: "entry_ok bo e \<Longrightarrow> entry_bytes bo e = tcp_frame (write_buf e)"
  by (simp add: entry_ok_def entry_bytes_frame)

lemma written_rest: "chain_written bo (e # es) @ entry_rest bo e = entry_bytes bo e"
  by (simp add: entry_rest_def)

lemma unat_cur_write_add:
  assumes "unat (c :: 16 word) + n < 65536"
  shows "unat (c + of_nat n) = unat c + n"
proof -
  have "unat (of_nat n :: 16 word) = n mod 2 ^ LENGTH(16)" by (rule unat_of_nat)
  with assms have n: "unat (of_nat n :: 16 word) = n" by simp
  have "unat c + unat (of_nat n :: 16 word) < 2 ^ LENGTH(16)" using assms n by simp
  then have "unat (c + of_nat n) = unat c + unat (of_nat n :: 16 word)"
    by (rule unat_add_lem[THEN iffD1])
  with n show ?thesis by simp
qed

lemma chain_ok_tl: "chain_ok bo (e # es) \<Longrightarrow> chain_ok bo es"
  by (cases es) (simp_all add: chain_ok_def)

lemma chain_ok_tl_unwritten: "chain_ok bo (e # es) \<Longrightarrow> chain_written bo es = []"
  by (cases es) (simp_all add: chain_ok_def)

lemma flush_chain_step:
  "chain_ok bo es \<Longrightarrow> flush_chain bo n es = (es', out) \<Longrightarrow>
     chain_ok bo es' \<and> length es' \<le> length es
     \<and> map write_buf es' = drop (length es - length es') (map write_buf es)
     \<and> chain_written bo es @ out
         = concat (map tcp_frame (take (length es - length es') (map write_buf es)))
           @ chain_written bo es'"
proof (induction es arbitrary: n es' out)
  case Nil
  then show ?case by simp
next
  case (Cons e es)
  have ok: "entry_ok bo e" using Cons.prems(1) by (simp add: chain_ok_def)
  have bytes: "entry_bytes bo e = tcp_frame (write_buf e)" using ok by (rule entry_ok_bytes)
  show ?case
  proof (cases "length (entry_rest bo e) \<le> n")
    case True
    obtain es1 out1 where r: "flush_chain bo (n - length (entry_rest bo e)) es = (es1, out1)"
      by (cases "flush_chain bo (n - length (entry_rest bo e)) es")
    from Cons.prems(2) True r have res: "es' = es1" "out = entry_rest bo e @ out1" by simp_all
    have ih: "chain_ok bo es1 \<and> length es1 \<le> length es
        \<and> map write_buf es1 = drop (length es - length es1) (map write_buf es)
        \<and> chain_written bo es @ out1
            = concat (map tcp_frame (take (length es - length es1) (map write_buf es)))
              @ chain_written bo es1"
      using Cons.IH[OF chain_ok_tl[OF Cons.prems(1)] r] .
    have unw: "chain_written bo es = []" using Cons.prems(1) by (rule chain_ok_tl_unwritten)
    have "length es1 \<le> length es" using ih by simp
    then have len: "Suc (length es) - length es1 = Suc (length es - length es1)"
      by (simp add: Suc_diff_le)
    have "chain_written bo (e # es) @ out
            = entry_bytes bo e @ out1"
      using written_rest[of bo e es] by (simp add: res)
    also have "\<dots> = tcp_frame (write_buf e)
         @ concat (map tcp_frame (take (length es - length es1) (map write_buf es)))
         @ chain_written bo es1"
      using ih unw bytes by simp
    finally show ?thesis using ih by (simp add: res len)
  next
    case False
    show ?thesis
    proof (cases "n = 0")
      case True
      with False Cons.prems show ?thesis by simp
    next
      case n0: False
      let ?e' = "e\<lparr>cur_write := cur_write e + of_nat n\<rparr>"
      from Cons.prems(2) False n0 have res: "es' = ?e' # es" "out = take n (entry_rest bo e)"
        by simp_all
      have lt: "unat (cur_write e) + n < length (write_buf e) + 2"
        using False bytes by (simp add: entry_rest_def length_tcp_frame)
      then have small: "unat (cur_write e) + n < 65536" using ok by (simp add: entry_ok_def)
      have cw: "unat (cur_write ?e') = unat (cur_write e) + n"
        using unat_cur_write_add[OF small] by simp
      have eb: "entry_bytes bo ?e' = entry_bytes bo e" by (simp add: entry_bytes_def)
      have ok': "entry_ok bo ?e'" using ok lt cw by (simp add: entry_ok_def)
      have c1: "chain_ok bo (?e' # es)" using Cons.prems(1) ok' by (simp add: chain_ok_def)
      have "chain_written bo (e # es) @ out = take (unat (cur_write e) + n) (entry_bytes bo e)"
        by (simp add: res entry_rest_def take_add)
      then have c2: "chain_written bo (e # es) @ out = chain_written bo (?e' # es)"
        using cw eb by simp
      show ?thesis using c1 c2 by (simp add: res)
    qed
  qed
qed

lemma write_inv_new: "write_inv bo [] (tcp_channel_new, [])"
  by (simp add: write_inv_def tcp_channel_new_def chain_ok_def)

lemma chain_written_append:
  "chain_written bo (es @ [\<lparr>next_write_size = s, cur_write = 0, write_buf = pkt\<rparr>])
     = chain_written bo es"
  by (cases es) simp_all

lemma chain_ok_append:
  "chain_ok bo es \<Longrightarrow> entry_ok bo e \<Longrightarrow> cur_write e = 0 \<Longrightarrow> chain_ok bo (es @ [e])"
  by (cases es) (simp_all add: chain_ok_def)

lemma write_inv_enqueue:
  assumes "write_inv bo enq (ch, wire)" and "length pkt + 2 < 65536"
  shows "write_inv bo (enq @ [pkt]) (tcp_enqueue bo pkt ch, wire)"
proof -
  let ?e = "\<lparr>next_write_size = htons bo (of_nat (length pkt)), cur_write = 0,
             write_buf = pkt\<rparr>"
  let ?es = "output_chain ch"
  from assms(1) have ok: "chain_ok bo ?es" and le: "length ?es \<le> length enq"
    and bufs: "map write_buf ?es = drop (length enq - length ?es) enq"
    and w: "wire = concat (map tcp_frame (take (length enq - length ?es) enq))
                   @ chain_written bo ?es"
    by (simp_all add: write_inv_def)
  have e: "entry_ok bo ?e" using assms(2) by (simp add: entry_ok_def)
  have oc: "output_chain (tcp_enqueue bo pkt ch) = ?es @ [?e]"
    by (simp add: tcp_enqueue_def)
  have k: "length (enq @ [pkt]) - length (?es @ [?e]) = length enq - length ?es" by simp
  have kle: "length enq - length ?es \<le> length enq" by simp
  show ?thesis
    unfolding write_inv_def prod.case oc k
    using chain_ok_append[OF ok e] le bufs w kle
    by (simp add: chain_written_append)
qed

lemma write_inv_write_ready:
  assumes "write_inv bo enq (ch, wire)" and "tcp_write_ready bo n ch = (ch', out)"
  shows "write_inv bo enq (ch', wire @ out)"
proof -
  let ?es = "output_chain ch"
  obtain es' where f: "flush_chain bo n ?es = (es', out)" and ch': "output_chain ch' = es'"
    using assms(2) by (auto simp add: tcp_write_ready_def split: prod.splits)
  from assms(1) have ok: "chain_ok bo ?es" and le: "length ?es \<le> length enq"
    and bufs: "map write_buf ?es = drop (length enq - length ?es) enq"
    and w: "wire = concat (map tcp_frame (take (length enq - length ?es) enq))
                   @ chain_written bo ?es"
    by (simp_all add: write_inv_def)
  from flush_chain_step[OF ok f]
  have ok': "chain_ok bo es'" and le': "length es' \<le> length ?es"
    and bufs': "map write_buf es' = drop (length ?es - length es') (map write_buf ?es)"
    and out: "chain_written bo ?es @ out
         = concat (map tcp_frame (take (length ?es - length es') (map write_buf ?es)))
           @ chain_written bo es'"
    by simp_all
  define k where "k = length enq - length ?es"
  define j where "j = length ?es - length es'"
  have kj: "length enq - length es' = k + j" using le le' by (simp add: k_def j_def)
  have b2: "map write_buf es' = drop (k + j) enq"
    using bufs' bufs by (simp add: k_def j_def add.commute)
  have "take (k + j) enq = take k enq @ take j (drop k enq)"
    by (simp add: take_add)
  then have t2: "concat (map tcp_frame (take (k + j) enq))
      = concat (map tcp_frame (take k enq)) @ concat (map tcp_frame (take j (map write_buf ?es)))"
    using bufs by (simp add: k_def)
  have "wire @ out = concat (map tcp_frame (take k enq)) @ chain_written bo ?es @ out"
    using w by (simp add: k_def)
  also have "\<dots> = concat (map tcp_frame (take (k + j) enq)) @ chain_written bo es'"
    using out t2 by (simp add: j_def)
  finally have w2: "wire @ out = concat (map tcp_frame (take (k + j) enq)) @ chain_written bo es'" .
  show ?thesis
    unfolding write_inv_def prod.case ch' kj
    using ok' le le' b2 w2 by simp
qed

lemma write_inv_run:
  "write_inv bo enq s \<Longrightarrow> list_all (\<lambda>pkt. length pkt + 2 < 65536) (enqueued ops)
     \<Longrightarrow> write_inv bo (enq @ enqueued ops) (tcp_write_run bo ops s)"
proof (induction bo ops s arbitrary: enq rule: tcp_write_run.induct)
  case (1 bo s)
  then show ?case by simp
next
  case (2 bo pkt ops ch wire)
  from 2(2,3) have "write_inv bo (enq @ [pkt]) (tcp_enqueue bo pkt ch, wire)"
    by (simp add: write_inv_enqueue)
  from 2(1)[OF this] 2(3) show ?case by simp
next
  case (3 bo n ops ch wire)
  obtain ch' out where r: "tcp_write_ready bo n ch = (ch', out)"
    by (cases "tcp_write_ready bo n ch")
  from write_inv_write_ready[OF 3(2) r] have "write_inv bo enq (ch', wire @ out)" .
  from 3(1)[OF r[symmetric] this] 3(3) show ?case using r by simp
qed

lemma chain_ok_pending:
  "chain_ok bo es \<Longrightarrow> chain_written bo es @ pending bo es = concat (map tcp_frame (map write_buf es))"
proof (induction es)
  case Nil
  then show ?case by (simp add: pending_def)
next
  case (Cons e es)
  have ok: "entry_ok bo e" using Cons.prems by (simp add: chain_ok_def)
  have "chain_written bo es = []" using Cons.prems by (rule chain_ok_tl_unwritten)
  with Cons.IH[OF chain_ok_tl[OF Cons.prems]]
  have "pending bo es = concat (map tcp_frame (map write_buf es))" by simp
  then show ?case
    using written_rest[of bo e es] entry_ok_bytes[OF ok]
    by (simp add: pending_def)
qed

lemma write_inv_stream:
  assumes "write_inv bo enq (ch, wire)"
  shows "wire @ pending bo (output_chain ch) = concat (map tcp_frame enq)"
proof -
  let ?es = "output_chain ch"
  let ?k = "length enq - length ?es"
  from assms have ok: "chain_ok bo ?es"
    and bufs: "map write_buf ?es = drop ?k enq"
    and w: "wire = concat (map tcp_frame (take ?k enq)) @ chain_written bo ?es"
    by (simp_all add: write_inv_def)
  have "wire @ pending bo ?es
      = concat (map tcp_frame (take ?k enq)) @ concat (map tcp_frame (drop ?k enq))"
    using w chain_ok_pending[OF ok] bufs by simp
  also have "\<dots> = concat (map tcp_frame (take ?k enq @ drop ?k enq))"
    by (simp only: map_append concat_append)
  finally show ?thesis by simp
qed

subsection \<open>The read path\<close>

lemma u16_bytes_of_bytes: "u16_bytes bo (u16_of_bytes bo [a, b]) = [a, b]"
  by (cases bo) (simp_all add: u16_bytes_def u16_of_bytes_def u16_hi_make u16_lo_make)

lemma u16_bytes_pair: "u16_bytes bo w = [u16_bytes bo w ! 0, u16_bytes bo w ! 1]"
  by (cases bo) (simp_all add: u16_bytes_def)

lemma u16_make_eq_0: "u16_make a b = 0 \<Longrightarrow> a = 0 \<and> b = 0"
proof -
  assume "u16_make a b = 0"
  then have "unat (u16_make a b) = 0" by simp
  then have "unat a = 0 \<and> unat b = 0" by (simp add: unat_u16_make)
  then show ?thesis by (simp add: unat_eq_0)
qed

lemma tcp_frame_by_size:
  assumes "length m = unat (w :: 16 word)"
  shows "tcp_frame m = [u16_hi w, u16_lo w] @ m"
proof -
  have "unat w < 65536" using unsigned_less[of w, where ?'a=nat] by simp
  then have "unat w div 256 < 256" by simp
  then show ?thesis using assms by (simp add: tcp_frame_def u16_hi_def u16_lo_def)
qed

lemma tcp_read_byte_first:
  assumes "unat (cur_read ch) = 0"
  shows "tcp_read_byte bo b ch =
     (ch\<lparr>next_read_size := u16_of_bytes bo [b, u16_bytes bo (next_read_size ch) ! 1],
         cur_read := 1\<rparr>, None)"
proof -
  have "(u16_bytes bo (next_read_size ch))[0 := b] = [b, u16_bytes bo (next_read_size ch) ! 1]"
    by (subst u16_bytes_pair) simp
  then show ?thesis using assms by (simp add: tcp_read_byte_def)
qed

lemma tcp_read_byte_second:
  assumes "unat (cur_read ch) = 1"
  shows "tcp_read_byte bo b ch =
     (let sz = u16_make (u16_bytes bo (next_read_size ch) ! 0) b
      in if sz = 0 then (ch\<lparr>next_read_size := sz, cur_read := 0\<rparr>, Some [])
         else (ch\<lparr>next_read_size := sz, cur_read := 2, cur_read_buf := [],
                  read_buf_allocated := max (read_buf_allocated ch) (unat sz)\<rparr>, None))"
proof -
  have "(u16_bytes bo (next_read_size ch))[1 := b] = [u16_bytes bo (next_read_size ch) ! 0, b]"
    by (subst u16_bytes_pair) simp
  then show ?thesis using assms by (simp add: tcp_read_byte_def ntohs_of_bytes Let_def)
qed

lemma tcp_read_byte_step:
  assumes ok: "read_ok ch"
    and ann: "unat (cur_read ch) \<noteq> 1
              \<or> unat (u16_make (u16_bytes bo (next_read_size ch) ! 0) b) + 2 < 65536"
    and step: "tcp_read_byte bo b ch = (ch', d)"
  shows "read_ok ch' \<and>
         tcp_incoming bo ch @ [b]
           = (case d of None \<Rightarrow> [] | Some m \<Rightarrow> tcp_frame m) @ tcp_incoming bo ch'"
proof -
  consider (first) "unat (cur_read ch) = 0" | (second) "unat (cur_read ch) = 1"
    | (payload) "2 \<le> unat (cur_read ch)" by linarith
  then show ?thesis
  proof cases
    case first
    from step have ch': "ch' = ch\<lparr>next_read_size :=
          u16_of_bytes bo [b, u16_bytes bo (next_read_size ch) ! 1], cur_read := 1\<rparr>"
      and d: "d = None"
      by (simp_all add: tcp_read_byte_first[OF first])
    show ?thesis using first
      by (simp add: ch' d read_ok_def tcp_incoming_def u16_bytes_of_bytes)
  next
    case second
    let ?m0 = "u16_bytes bo (next_read_size ch) ! 0"
    let ?sz = "u16_make ?m0 b"
    have inc: "tcp_incoming bo ch = [?m0]" using second by (simp add: tcp_incoming_def)
    show ?thesis
    proof (cases "?sz = 0")
      case True
      from step True have ch': "ch' = ch\<lparr>next_read_size := ?sz, cur_read := 0\<rparr>"
        and d: "d = Some []"
        by (simp_all add: tcp_read_byte_second[OF second] Let_def)
      from u16_make_eq_0[OF True] have "?m0 = 0" "b = 0" by simp_all
      then show ?thesis using second
        by (simp add: ch' d read_ok_def tcp_incoming_def tcp_frame_def)
    next
      case False
      from step False have ch': "ch' = ch\<lparr>next_read_size := ?sz, cur_read := 2,
            cur_read_buf := [],
            read_buf_allocated := max (read_buf_allocated ch) (unat ?sz)\<rparr>"
        and d: "d = None"
        by (simp_all add: tcp_read_byte_second[OF second] Let_def)
      have pos: "0 < unat ?sz" using False by (simp add: unat_gt_0)
      have small: "unat ?sz + 2 < 65536" using ann second by simp
      show ?thesis using pos small second
        by (simp add: ch' d read_ok_def tcp_incoming_def u16_hi_make u16_lo_make)
    qed
  next
    case payload
    let ?buf = "cur_read_buf ch"
    let ?sz = "next_read_size ch"
    from ok payload have cr: "unat (cur_read ch) = length ?buf + 2"
      and lt: "length ?buf < unat ?sz" and small: "unat ?sz + 2 < 65536"
      by (simp_all add: read_ok_def)
    have "unat (cur_read ch) + 1 < 65536" using cr lt small by simp
    from unat_cur_write_add[OF this]
    have n: "unat (cur_read ch + 1) = length ?buf + 3" using cr by simp
    have inc: "tcp_incoming bo ch = [u16_hi ?sz, u16_lo ?sz] @ ?buf"
      using payload by (simp add: tcp_incoming_def)
    show ?thesis
    proof (cases "length ?buf + 1 = unat ?sz")
      case True
      from step payload n True
      have ch': "ch' = ch\<lparr>cur_read := 0, cur_read_buf := []\<rparr>" and d: "d = Some (?buf @ [b])"
        by (simp_all add: tcp_read_byte_def Let_def)
      have "tcp_frame (?buf @ [b]) = [u16_hi ?sz, u16_lo ?sz] @ ?buf @ [b]"
        using True by (intro tcp_frame_by_size) simp
      then show ?thesis using payload cr by (simp add: ch' d read_ok_def tcp_incoming_def)
    next
      case False
      from step payload n False
      have ch': "ch' = ch\<lparr>cur_read := cur_read ch + 1, cur_read_buf := ?buf @ [b]\<rparr>"
        and d: "d = None"
        by (simp_all add: tcp_read_byte_def Let_def)
      show ?thesis using n lt False small payload cr
        by (simp add: ch' d read_ok_def tcp_incoming_def)
    qed
  qed
qed

lemma tcp_read_stream:
  "read_ok ch \<Longrightarrow> announces_ok bo bs ch \<Longrightarrow> tcp_read bo bs ch = (ch', ms) \<Longrightarrow>
     read_ok ch' \<and> tcp_incoming bo ch @ bs = concat (map tcp_frame ms) @ tcp_incoming bo ch'"
proof (induction bs arbitrary: ch ch' ms)
  case Nil
  then show ?case by simp
next
  case (Cons b bs)
  obtain ch1 d where s1: "tcp_read_byte bo b ch = (ch1, d)" by (cases "tcp_read_byte bo b ch")
  obtain ch2 ms2 where s2: "tcp_read bo bs ch1 = (ch2, ms2)" by (cases "tcp_read bo bs ch1")
  from Cons.prems(3) s1 s2 have res: "ch' = ch2"
    "ms = (case d of None \<Rightarrow> [] | Some m \<Rightarrow> [m]) @ ms2" by simp_all
  from Cons.prems(2) s1 have ann: "unat (cur_read ch) \<noteq> 1
        \<or> unat (u16_make (u16_bytes bo (next_read_size ch) ! 0) b) + 2 < 65536"
    and rest: "announces_ok bo bs ch1" by simp_all
  from tcp_read_byte_step[OF Cons.prems(1) ann s1]
  have ok1: "read_ok ch1" and e1: "tcp_incoming bo ch @ [b]
      = (case d of None \<Rightarrow> [] | Some m \<Rightarrow> tcp_frame m) @ tcp_incoming bo ch1" by simp_all
  from Cons.IH[OF ok1 rest s2]
  have ok2: "read_ok ch2" and e2: "tcp_incoming bo ch1 @ bs
      = concat (map tcp_frame ms2) @ tcp_incoming bo ch2" by simp_all
  have "tcp_incoming bo ch @ b # bs = (tcp_incoming bo ch @ [b]) @ bs" by simp
  also have "\<dots> = (case d of None \<Rightarrow> [] | Some m \<Rightarrow> tcp_frame m)
                     @ concat (map tcp_frame ms2) @ tcp_incoming bo ch2"
    using e1 e2 by simp
  finally show ?case using ok2 by (cases d) (simp_all add: res)
qed

lemma tcp_read_append:
  "tcp_read bo (xs @ ys) ch =
     (case tcp_read bo xs ch of
        (ch1, ms1) \<Rightarrow> (case tcp_read bo ys ch1 of (ch2, ms2) \<Rightarrow> (ch2, ms1 @ ms2)))"
  by (induction xs arbitrary: ch) (simp_all split: prod.splits)

lemma tcp_read_payload:
  "2 \<le> unat (cur_read ch) \<Longrightarrow> read_ok ch \<Longrightarrow> r \<noteq> [] \<Longrightarrow>
   length (cur_read_buf ch) + length r = unat (next_read_size ch) \<Longrightarrow>
   tcp_read bo r ch = (ch\<lparr>cur_read := 0, cur_read_buf := []\<rparr>, [cur_read_buf ch @ r])"
proof (induction r arbitrary: ch)
  case Nil
  then show ?case by simp
next
  case (Cons b r)
  let ?buf = "cur_read_buf ch"
  let ?sz = "next_read_size ch"
  from Cons.prems(1,2) have cr: "unat (cur_read ch) = length ?buf + 2"
    and small: "unat ?sz + 2 < 65536"
    by (simp_all add: read_ok_def)
  have "unat (cur_read ch) + 1 < 65536" using cr Cons.prems(4) small by simp
  from unat_cur_write_add[OF this]
  have n: "unat (cur_read ch + 1) = length ?buf + 3" using cr by simp
  show ?case
  proof (cases "r = []")
    case True
    then have "length ?buf + 1 = unat ?sz" using Cons.prems(4) by simp
    then have "tcp_read_byte bo b ch = (ch\<lparr>cur_read := 0, cur_read_buf := []\<rparr>, Some (?buf @ [b]))"
      using Cons.prems(1) n by (simp add: tcp_read_byte_def Let_def)
    then show ?thesis using True by simp
  next
    case False
    let ?ch1 = "ch\<lparr>cur_read := cur_read ch + 1, cur_read_buf := ?buf @ [b]\<rparr>"
    have pos: "0 < length r" using False by simp
    have "length ?buf + Suc (length r) = unat ?sz" using Cons.prems(4) by simp
    with pos have ne: "length ?buf + 1 \<noteq> unat ?sz" and lt: "length ?buf + 1 < unat ?sz"
      by arith+
    then have s1: "tcp_read_byte bo b ch = (?ch1, None)"
      using Cons.prems(1) n by (simp add: tcp_read_byte_def Let_def)
    have p1: "2 \<le> unat (cur_read ?ch1)" using n by simp
    have p2: "read_ok ?ch1" using n lt small by (simp add: read_ok_def)
    have p4: "length (cur_read_buf ?ch1) + length r = unat (next_read_size ?ch1)"
      using Cons.prems(4) by simp
    from Cons.IH[OF p1 p2 False p4] s1 show ?thesis by simp
  qed
qed

lemma unat_of_nat_len16: "n < 65536 \<Longrightarrow> unat (of_nat n :: 16 word) = n"
proof -
  assume a: "n < 65536"
  have "unat (of_nat n :: 16 word) = n mod 2 ^ LENGTH(16)" by (rule unat_of_nat)
  with a show ?thesis by simp
qed

lemma tcp_frame_prefix:
  "tcp_frame pkt = u16_hi (of_nat (length pkt)) # u16_lo (of_nat (length pkt)) # pkt"
  by (simp add: tcp_frame_def u16_hi_of_nat u16_lo_of_nat)

lemma tcp_read_prefix:
  assumes "unat (cur_read ch) = 0"
  shows "tcp_read bo [b0, b1] ch =
     (let sz = u16_make b0 b1
      in if sz = 0 then (ch\<lparr>next_read_size := sz, cur_read := 0\<rparr>, [[]])
         else (ch\<lparr>next_read_size := sz, cur_read := 2, cur_read_buf := [],
                  read_buf_allocated := max (read_buf_allocated ch) (unat sz)\<rparr>, []))"
proof -
  define ch1 where "ch1 = ch\<lparr>next_read_size :=
         u16_of_bytes bo [b0, u16_bytes bo (next_read_size ch) ! 1], cur_read := 1\<rparr>"
  have s1: "tcp_read_byte bo b0 ch = (ch1, None)"
    unfolding ch1_def by (rule tcp_read_byte_first[OF assms])
  have one: "unat (cur_read ch1) = 1" by (simp add: ch1_def)
  have m0: "u16_bytes bo (next_read_size ch1) ! 0 = b0"
    by (simp add: ch1_def u16_bytes_of_bytes)
  have upd: "ch1\<lparr>next_read_size := w, cur_read := c\<rparr> = ch\<lparr>next_read_size := w, cur_read := c\<rparr>"
    for w c by (simp add: ch1_def)
  have alloc: "read_buf_allocated ch1 = read_buf_allocated ch" by (simp add: ch1_def)
  show ?thesis
  proof (cases "u16_make b0 b1 = 0")
    case True
    then have s2: "tcp_read_byte bo b1 ch1 = (ch\<lparr>next_read_size := 0, cur_read := 0\<rparr>, Some [])"
      using tcp_read_byte_second[OF one, of bo b1] m0 upd by (simp add: Let_def)
    show ?thesis using True by (simp add: s1 s2 Let_def)
  next
    case False
    then have s2: "tcp_read_byte bo b1 ch1 =
        (ch\<lparr>next_read_size := u16_make b0 b1, cur_read := 2, cur_read_buf := [],
            read_buf_allocated := max (read_buf_allocated ch) (unat (u16_make b0 b1))\<rparr>, None)"
      using tcp_read_byte_second[OF one, of bo b1] m0 by (simp add: Let_def ch1_def)
    show ?thesis using False by (simp add: s1 s2 Let_def)
  qed
qed

lemma tcp_read_frame:
  assumes idle: "unat (cur_read ch) = 0" and len: "length pkt + 2 < 65536"
  shows "\<exists>ch'. tcp_read bo (tcp_frame pkt) ch = (ch', [pkt])
           \<and> unat (cur_read ch') = 0 \<and> unat (next_read_size ch') = length pkt"
proof -
  let ?sz = "of_nat (length pkt) :: 16 word"
  have sz: "unat ?sz = length pkt" using len by (simp add: unat_of_nat_len16)
  have mk: "u16_make (u16_hi ?sz) (u16_lo ?sz) = ?sz" by (rule u16_make_hi_lo)
  have split: "tcp_frame pkt = [u16_hi ?sz, u16_lo ?sz] @ pkt" by (simp add: tcp_frame_prefix)
  show ?thesis
  proof (cases "pkt = []")
    case True
    then show ?thesis using tcp_read_prefix[OF idle, of bo "u16_hi 0" "u16_lo 0"] mk
      by (simp add: tcp_frame_prefix Let_def)
  next
    case False
    then have nz: "?sz \<noteq> 0" using sz by (metis length_0_conv unat_0)
    let ?ch2 = "ch\<lparr>next_read_size := ?sz, cur_read := 2, cur_read_buf := [],
                  read_buf_allocated := max (read_buf_allocated ch) (unat ?sz)\<rparr>"
    have pre: "tcp_read bo [u16_hi ?sz, u16_lo ?sz] ch = (?ch2, [])"
      using tcp_read_prefix[OF idle, of bo "u16_hi ?sz" "u16_lo ?sz"] nz
      by (simp only: mk Let_def if_False)
    have p1: "2 \<le> unat (cur_read ?ch2)" by simp
    have p2: "read_ok ?ch2" using sz len False by (simp add: read_ok_def)
    have p4: "length (cur_read_buf ?ch2) + length pkt = unat (next_read_size ?ch2)"
      using sz by simp
    from tcp_read_payload[OF p1 p2 False p4, of bo]
    have pay: "tcp_read bo pkt ?ch2 = (?ch2\<lparr>cur_read := 0, cur_read_buf := []\<rparr>, [pkt])"
      by simp
    show ?thesis
      unfolding split tcp_read_append pre prod.case pay
      using sz by simp
  qed
qed

lemma tcp_read_frames:
  "unat (cur_read ch) = 0 \<Longrightarrow> list_all (\<lambda>m. length m + 2 < 65536) msgs \<Longrightarrow>
     \<exists>ch'. tcp_read bo (concat (map tcp_frame msgs)) ch = (ch', msgs) \<and> unat (cur_read ch') = 0"
proof (induction msgs arbitrary: ch)
  case Nil
  then show ?case by simp
next
  case (Cons m msgs)
  from Cons.prems(2) have len: "length m + 2 < 65536"
    and rest: "list_all (\<lambda>m. length m + 2 < 65536) msgs" by simp_all
  from tcp_read_frame[OF Cons.prems(1) len, of bo]
  obtain ch1 where r1: "tcp_read bo (tcp_frame m) ch = (ch1, [m])"
    and i1: "unat (cur_read ch1) = 0" by blast
  from Cons.IH[OF i1 rest]
  obtain ch2 where r2: "tcp_read bo (concat (map tcp_frame msgs)) ch1 = (ch2, msgs)"
    and i2: "unat (cur_read ch2) = 0" by blast
  show ?case using i2 by (simp add: tcp_read_append r1 r2)
qed

lemma tcp_frame_announces: "256 * unat (tcp_frame pkt ! 0) + unat (tcp_frame pkt ! 1) = length pkt mod 65536"
proof -
  have "unat (of_nat (length pkt div 256 mod 256) :: 8 word) = length pkt div 256 mod 256"
    by (simp add: unat_of_nat)
  moreover have "unat (of_nat (length pkt mod 256) :: 8 word) = length pkt mod 256"
    by (simp add: unat_of_nat)
  moreover have "256 * (length pkt div 256 mod 256) + length pkt mod 256 = length pkt mod 65536"
    by (simp add: mod_mult2_eq[of "length pkt" 256 256, simplified])
  ultimately show ?thesis by (simp add: tcp_frame_def)
qed

lemma read_ok_new: "read_ok tcp_channel_new"
  by (simp add: read_ok_def tcp_channel_new_def)

lemma tcp_incoming_new: "tcp_incoming bo tcp_channel_new = []"
  by (simp add: tcp_incoming_def tcp_channel_new_def)

lemma read_ok_incoming_length:
  "read_ok ch \<Longrightarrow> length (tcp_incoming bo ch) = unat (cur_read ch)"
  by (auto simp add: read_ok_def tcp_incoming_def)

subsection \<open>Every channel\<close>







lemma tcp_read_output_chain:
  "tcp_read bo bs ch = (ch', ms) \<Longrightarrow> output_chain ch' = output_chain ch"
proof (induction bs arbitrary: ch ch' ms)
  case Nil
  then show ?case by simp
next
  case (Cons b bs)
  obtain ch1 d where s1: "tcp_read_byte bo b ch = (ch1, d)" by (cases "tcp_read_byte bo b ch")
  obtain ch2 ms2 where s2: "tcp_read bo bs ch1 = (ch2, ms2)" by (cases "tcp_read bo bs ch1")
  have "output_chain ch1 = output_chain ch"
    using s1 by (auto simp add: tcp_read_byte_def Let_def split: if_splits)
  with Cons.IH[OF s2] Cons.prems s1 s2 show ?case by simp
qed










lemma entry_framed_bytes: "entry_framed bo e \<Longrightarrow> entry_bytes bo e = tcp_frame (write_buf e)"
  by (simp add: entry_framed_def entry_bytes_frame)




subsection \<open>Within the counters\<close>

text \<open>
  Within the range of the 16-bit counters nothing is dropped and nothing repeated: when
  no frame received announces more than 65533 bytes, the input is exactly the frames
  delivered followed by the bytes of the message in progress; when no packet queued is
  longer than 65533 bytes, the peer has received exactly the frames of the evicted
  entries, in the order queued, followed by the written part of the first entry left.
\<close>

lemma tcp_channel_streams_exact:
  assumes "list_all (\<lambda>pkt. length pkt + 2 < 65536) (enqueued ops)"
    and "announces_ok bo bs tcp_channel_new"
  shows "(case tcp_read bo bs tcp_channel_new of
            (ch, ms) \<Rightarrow>
              bs = concat (map tcp_frame ms) @ tcp_incoming bo ch
              \<and> length (tcp_incoming bo ch) = unat (cur_read ch)
              \<and> read_ok ch)
       \<and> (case tcp_write_run bo ops (tcp_channel_new, []) of
            (ch, wire) \<Rightarrow>
              wire @ pending bo (output_chain ch) = concat (map tcp_frame (enqueued ops))
              \<and> map write_buf (output_chain ch)
                  = drop (length (enqueued ops) - length (output_chain ch)) (enqueued ops)
              \<and> wire = concat (map tcp_frame
                           (take (length (enqueued ops) - length (output_chain ch))
                                 (enqueued ops)))
                        @ chain_written bo (output_chain ch)
              \<and> chain_ok bo (output_chain ch))"
proof -
  obtain ch ms where r: "tcp_read bo bs tcp_channel_new = (ch, ms)"
    by (cases "tcp_read bo bs tcp_channel_new")
  from tcp_read_stream[OF read_ok_new assms(2) r]
  have ok: "read_ok ch" and st: "bs = concat (map tcp_frame ms) @ tcp_incoming bo ch"
    by (simp_all add: tcp_incoming_new)
  have rd: "case tcp_read bo bs tcp_channel_new of
            (ch, ms) \<Rightarrow>
              bs = concat (map tcp_frame ms) @ tcp_incoming bo ch
              \<and> length (tcp_incoming bo ch) = unat (cur_read ch)
              \<and> read_ok ch"
    unfolding r prod.case by (intro conjI st read_ok_incoming_length[OF ok] ok)
  obtain ch' wire where w: "tcp_write_run bo ops (tcp_channel_new, []) = (ch', wire)"
    by (cases "tcp_write_run bo ops (tcp_channel_new, [])")
  from write_inv_run[OF write_inv_new assms(1), of bo]
  have inv: "write_inv bo (enqueued ops) (ch', wire)" by (simp add: w)
  have wr: "case tcp_write_run bo ops (tcp_channel_new, []) of
            (ch, wire) \<Rightarrow>
              wire @ pending bo (output_chain ch) = concat (map tcp_frame (enqueued ops))
              \<and> map write_buf (output_chain ch)
                  = drop (length (enqueued ops) - length (output_chain ch)) (enqueued ops)
              \<and> wire = concat (map tcp_frame
                           (take (length (enqueued ops) - length (output_chain ch))
                                 (enqueued ops)))
                        @ chain_written bo (output_chain ch)
              \<and> chain_ok bo (output_chain ch)"
    using write_inv_stream[OF inv] inv by (simp add: w write_inv_def)
  from rd wr show ?thesis by (rule conjI)
qed

subsection \<open>The request lifecycle\<close>

lemma not_registered_deregister: "\<not> registered (deregister s)"
  by (simp add: deregister_def registered_def)

lemma deregister_fields:
  "rq (deregister s) = rq s" "self (deregister s) = self s"
  "invoked (deregister s) = invoked s" "cancelled (deregister s) = cancelled s"
  by (simp_all add: deregister_def)

lemma registered_set_state: "registered (set_state st s) = registered s"
  by (simp add: set_state_def registered_def)

lemma life_inv_finish:
  "terminal st \<Longrightarrow> life_inv s \<Longrightarrow> \<not> terminal (state (rq s)) \<Longrightarrow> \<not> cancelled s
     \<Longrightarrow> life_inv (finish st s)"
proof -
  assume t: "terminal st" and i: "life_inv s" and nt: "\<not> terminal (state (rq s))"
    and nc: "\<not> cancelled s"
  from i nt have z: "invoked s = 0" by (auto simp add: life_inv_def)
  have nr: "\<not> registered (finish st s)"
    using not_registered_deregister[of s]
    by (simp add: finish_def set_state_def registered_def deregister_fields)
  have st: "state (rq (finish st s)) = st" by (simp add: finish_def set_state_def)
  have inv: "invoked (finish st s) = 1" using z by (simp add: finish_def set_state_def)
  have c: "cancelled (finish st s) = cancelled s"
    by (simp add: finish_def set_state_def deregister_fields)
  show ?thesis using t nr st inv c nc by (auto simp add: life_inv_def terminal_def)
qed

lemma life_inv_transition:
  assumes i: "life_inv s" and nt: "\<not> terminal (state (rq s))" and nc: "\<not> cancelled s"
  shows "life_inv (request_transition maxr ev (state (rq s)) s)"
proof -
  from i nt have z: "invoked s = 0" by (auto simp add: life_inv_def)
  have fin: "life_inv (finish st s)" if "terminal st" for st
    using life_inv_finish[OF that i nt nc] .
  have finE: "life_inv (finish RDNS_REQUEST_ERROR s)" by (rule fin) (simp add: terminal_def)
  have finR: "life_inv (finish RDNS_REQUEST_REPLIED s)" by (rule fin) (simp add: terminal_def)
  have mv: "life_inv (set_state st s)"
    if "\<not> terminal st" "st \<noteq> RDNS_REQUEST_NEW" "st \<noteq> RDNS_REQUEST_FAKE \<or> \<not> registered s" for st
    using that i z nc by (auto simp add: life_inv_def set_state_def registered_def)
  have canc: "life_inv ((deregister s)\<lparr>cancelled := True\<rparr>)"
    using i z nt not_registered_deregister[of s]
    by (simp add: life_inv_def registered_def deregister_fields)
  show ?thesis
  proof (cases ev)
    case (Ev_register ok)
    show ?thesis
    proof (cases "state (rq s)")
      case RDNS_REQUEST_NEW
      have "life_inv (set_state RDNS_REQUEST_REGISTERED
             (s\<lparr>index := (index s)(req_id (rq s) \<mapsto> self s)\<rparr>))"
        using i z nc by (simp add: life_inv_def set_state_def registered_def terminal_def)
      then show ?thesis using finE by (simp add: Ev_register RDNS_REQUEST_NEW)
    qed (simp_all add: Ev_register i)
  next
    case Ev_fake_hit
    from i have "state (rq s) = RDNS_REQUEST_NEW \<Longrightarrow> \<not> registered s"
      by (simp add: life_inv_def)
    then show ?thesis using i mv[of RDNS_REQUEST_FAKE]
      by (cases "state (rq s)") (simp_all add: Ev_fake_hit terminal_def)
  next
    case Ev_fake_deliver
    then show ?thesis using i finR by (cases "state (rq s)") simp_all
  next
    case Ev_queue_write
    then show ?thesis using i mv[of RDNS_REQUEST_WAIT_SEND]
      by (cases "state (rq s)") (simp_all add: terminal_def)
  next
    case Ev_flushed
    then show ?thesis using i mv[of RDNS_REQUEST_WAIT_REPLY]
      by (cases "state (rq s)") (simp_all add: terminal_def)
  next
    case Ev_reply
    then show ?thesis using i finR by (cases "state (rq s)") simp_all
  next
    case Ev_truncated
    then show ?thesis using i mv[of RDNS_REQUEST_TCP]
      by (cases "state (rq s)") (simp_all add: terminal_def)
  next
    case Ev_timeout
    have "life_inv (set_state RDNS_REQUEST_WAIT_SEND
             (s\<lparr>rq := (rq s)\<lparr>retransmits := retransmits (rq s) + 1\<rparr>\<rparr>))"
      using i z nc by (simp add: life_inv_def set_state_def registered_def terminal_def)
    then show ?thesis using i finE by (cases "state (rq s)") (simp_all add: Ev_timeout)
  next
    case Ev_transport_error
    then show ?thesis using finE by (cases "state (rq s)") simp_all
  next
    case Ev_malformed_reply
    then show ?thesis using i finE by (cases "state (rq s)") simp_all
  next
    case Ev_cancel
    then show ?thesis using canc by (cases "state (rq s)") simp_all
  qed
qed

lemma life_inv_step: "life_inv s \<Longrightarrow> life_inv (request_step maxr ev s)"
  by (simp add: request_step_def life_inv_transition)

lemma life_inv_run: "life_inv s \<Longrightarrow> life_inv (request_run maxr evs s)"
  by (induction evs arbitrary: s) (simp_all add: life_inv_step)

lemma life_inv_created: "request_created s \<Longrightarrow> life_inv s"
  by (simp add: request_created_def life_inv_def terminal_def)

subsection \<open>Constants\<close>

text \<open>
  C10. The built-in defaults and limits: nameserver port 53, 8 UDP and 1 TCP I/O channel
  per server, a UDP packet buffer of 4096 bytes, at most 63 bytes per label and 253 bytes
  per name.
\<close>

theorem builtin_defaults_and_limits:
  "dns_port = 53 \<and> default_io_cnt = 8 \<and> default_tcp_io_cnt = 1
   \<and> UDP_PACKET_SIZE = 4096 \<and> DNS_D_MAXLABEL = 63 \<and> DNS_D_MAXNAME = 253"
  by (simp add: dns_port_def default_io_cnt_def default_tcp_io_cnt_def
      UDP_PACKET_SIZE_def DNS_D_MAXLABEL_def DNS_D_MAXNAME_def)

subsection \<open>The DNS header\<close>

text \<open>
  C8. The header model is bit-exact over 12 bytes, 96 bits in total, on either byte
  order: bytes 0 and 1 hold the 16 bits of the transaction id; byte 2 is, from bit 7 down
  to bit 0, QR, the four bits of the opcode, AA, TC and RD; byte 3 is a second flags byte
  (the members \<open>ra\<close>, \<open>z\<close>, \<open>ad\<close>, \<open>cd\<close>, \<open>rcode\<close>); bytes 4 to 11 hold the four
  16-bit counts QDCOUNT, ANCOUNT, NSCOUNT and ARCOUNT in this order.
\<close>

theorem dns_header_bit_exact:
  "length (dns_header_image bo) = 12
   \<and> map length (dns_header_image bo) = [8, 8, 8, 8, 8, 8, 8, 8, 8, 8, 8, 8]
   \<and> length (concat (dns_header_image bo)) = 96
   \<and> member_width bo ''qid'' = 16 \<and> member_bytes bo ''qid'' = [0, 1]
   \<and> dns_header_image bo ! 2 =
       [(''qr'', 0), (''opcode'', 3), (''opcode'', 2), (''opcode'', 1), (''opcode'', 0),
        (''aa'', 0), (''tc'', 0), (''rd'', 0)]
   \<and> fst ` set (dns_header_image bo ! 3) = {''ra'', ''z'', ''ad'', ''cd'', ''rcode''}
   \<and> map (member_width bo) [''qdcount'', ''ancount'', ''nscount'', ''arcount'']
       = [16, 16, 16, 16]
   \<and> map (member_bytes bo) [''qdcount'', ''ancount'', ''nscount'', ''arcount'']
       = [[4, 5], [6, 7], [8, 9], [10, 11]]"
  by (cases bo; hypsubst; code_simp)

text \<open>
  C1. On the wire the second flags byte is, from bit 7 down, RA, Z, AD, CD and the four
  bits of RCODE (RFC 4035: Z is bit 6, CD is bit 4). The declaration, in both of its
  branches, puts the member \<open>cd\<close> on bit 6 and the member \<open>z\<close> on bit 4: the layout
  is the same on either byte order, but it is RA, CD, AD, Z, RCODE. In a message whose
  second flags byte is 0x10, that is, whose CD bit is set and whose Z bit is clear, the
  overlay reads \<open>cd\<close> as 0 and \<open>z\<close> as 1.
\<close>

theorem dns_header_cd_z_transposed:
  "map fst (dns_header_image bo ! 3) =
     [''ra'', ''cd'', ''ad'', ''z'', ''rcode'', ''rcode'', ''rcode'', ''rcode'']
   \<and> dns_header_member bo [0, 0, 0, 0x10, 0, 0, 0, 0, 0, 0, 0, 0] ''cd'' = Some 0
   \<and> dns_header_member bo [0, 0, 0, 0x10, 0, 0, 0, 0, 0, 0, 0, 0] ''z'' = Some 1"
  by (cases bo; hypsubst; code_simp)

subsection \<open>Enumerations\<close>

text \<open>
  C6. The request lifecycle state type has exactly the eight states NEW, REGISTERED,
  WAIT_SEND, WAIT_REPLY, REPLIED, FAKE, ERROR and TCP, numbered 0 to 7 in the order of
  their declaration, and the state of a request is exactly one of them.
\<close>

theorem rdns_request_state_exactly_eight:
  "(\<forall>s. s \<in> set rdns_request_states) \<and> distinct rdns_request_states
   \<and> length rdns_request_states = 8
   \<and> rdns_request_states =
       [RDNS_REQUEST_NEW, RDNS_REQUEST_REGISTERED, RDNS_REQUEST_WAIT_SEND,
        RDNS_REQUEST_WAIT_REPLY, RDNS_REQUEST_REPLIED, RDNS_REQUEST_FAKE,
        RDNS_REQUEST_ERROR, RDNS_REQUEST_TCP]
   \<and> map rdns_request_state_value rdns_request_states = [0, 1, 2, 3, 4, 5, 6, 7]
   \<and> (\<exists>!s. s \<in> set rdns_request_states \<and> state r = s)"
proof -
  have "s \<in> set rdns_request_states" for s
    by (cases s) (simp_all add: rdns_request_states_def)
  then show ?thesis by (simp add: rdns_request_states_def)
qed

text \<open>
  C9. For each of the eleven aliased query types (A, NS, SOA, PTR, MX, TXT, AAAA, SRV,
  TLSA, SPF, ANY) the wire type code equals the value of the request type, whatever the
  numbering of the request types is: taking a request type to its wire type code is the
  identity on the values.
\<close>

theorem dns_type_aliases_request_type:
  "(\<forall>t. dns_type_value rv (dns_type_of_request t) = rv t)
   \<and> map dns_type_of_request
        [RDNS_REQUEST_A, RDNS_REQUEST_NS, RDNS_REQUEST_SOA, RDNS_REQUEST_PTR,
         RDNS_REQUEST_MX, RDNS_REQUEST_TXT, RDNS_REQUEST_AAAA, RDNS_REQUEST_SRV,
         RDNS_REQUEST_TLSA, RDNS_REQUEST_SPF, RDNS_REQUEST_ANY]
      = [DNS_T_A, DNS_T_NS, DNS_T_SOA, DNS_T_PTR, DNS_T_MX, DNS_T_TXT, DNS_T_AAAA,
         DNS_T_SRV, DNS_T_TLSA, DNS_T_SPF, DNS_T_ALL]"
proof -
  have "dns_type_value rv (dns_type_of_request t) = rv t" for t
    by (cases t) simp_all
  then show ?thesis by simp
qed

subsection \<open>TCP framing\<close>

text \<open>
  C3. A message queued on a TCP channel goes out preceded by two bytes that give its
  length, the more significant first, whatever the host's byte order; a length field of
  16 bits bounds the length by 65535 (the two bytes give the length modulo 65536). On
  the read side the two length bytes are stored as
  they arrive, so that after the first the memory of \<open>next_read_size\<close> begins with the
  high byte of the length (network byte order), and once the second has arrived
  \<open>next_read_size\<close> is the length as a host value. A frame whose length and prefix fit
  the 16-bit counter is read back as the message it carries.
\<close>

theorem tcp_length_prefix:
  assumes len: "length pkt < 65536" and idle: "unat (cur_read ch) = 0"
  shows "entry_bytes bo (last (output_chain (tcp_enqueue bo pkt ch))) = tcp_frame pkt
    \<and> (\<exists>b0 b1. tcp_frame pkt = b0 # b1 # pkt \<and> 256 * unat b0 + unat b1 = length pkt)
    \<and> (case tcp_read_byte bo (tcp_frame pkt ! 0) ch of
         (ch1, d1) \<Rightarrow>
           d1 = None \<and> unat (cur_read ch1) = 1
           \<and> u16_bytes bo (next_read_size ch1) ! 0 = tcp_frame pkt ! 0
           \<and> (case tcp_read_byte bo (tcp_frame pkt ! 1) ch1 of
                (ch2, d2) \<Rightarrow> unat (next_read_size ch2) = length pkt
                   \<and> u16_bytes BIG_ENDIAN (next_read_size ch2) = take 2 (tcp_frame pkt)))
    \<and> unat (next_read_size ch) < 65536
    \<and> (\<forall>p. 256 * unat (tcp_frame p ! 0) + unat (tcp_frame p ! 1) = length p mod 65536)
    \<and> (length pkt + 2 < 65536 \<longrightarrow> snd (tcp_read bo (tcp_frame pkt) ch) = [pkt])"
proof -
  let ?sz = "of_nat (length pkt) :: 16 word"
  have sz: "unat ?sz = length pkt" using len by (rule unat_of_nat_len16)
  have mk: "u16_make (u16_hi ?sz) (u16_lo ?sz) = ?sz" by (rule u16_make_hi_lo)
  have fr: "tcp_frame pkt = u16_hi ?sz # u16_lo ?sz # pkt" by (rule tcp_frame_prefix)
  have a: "entry_bytes bo (last (output_chain (tcp_enqueue bo pkt ch))) = tcp_frame pkt"
    by (simp add: tcp_enqueue_def entry_bytes_frame)
  have "256 * unat (tcp_frame pkt ! 0) + unat (tcp_frame pkt ! 1) = length pkt"
    using tcp_frame_announces[of pkt] len by simp
  then have b: "\<exists>b0 b1. tcp_frame pkt = b0 # b1 # pkt \<and> 256 * unat b0 + unat b1 = length pkt"
    using fr by auto
  define ch1 where "ch1 = ch\<lparr>next_read_size :=
         u16_of_bytes bo [u16_hi ?sz, u16_bytes bo (next_read_size ch) ! 1], cur_read := 1\<rparr>"
  have s1: "tcp_read_byte bo (u16_hi ?sz) ch = (ch1, None)"
    unfolding ch1_def by (rule tcp_read_byte_first[OF idle])
  have one: "unat (cur_read ch1) = 1" by (simp add: ch1_def)
  have m0: "u16_bytes bo (next_read_size ch1) ! 0 = u16_hi ?sz"
    by (simp add: ch1_def u16_bytes_of_bytes)
  obtain ch2 d2 where r2: "tcp_read_byte bo (u16_lo ?sz) ch1 = (ch2, d2)"
    by (cases "tcp_read_byte bo (u16_lo ?sz) ch1")
  have s2: "next_read_size ch2 = ?sz"
    using tcp_read_byte_second[OF one, of bo "u16_lo ?sz"] m0 mk r2
    by (auto simp add: Let_def split: if_splits)
  have be: "u16_bytes BIG_ENDIAN ?sz = [u16_hi ?sz, u16_lo ?sz]" by (simp add: u16_bytes_def)
  have c: "case tcp_read_byte bo (tcp_frame pkt ! 0) ch of
         (ch1, d1) \<Rightarrow>
           d1 = None \<and> unat (cur_read ch1) = 1
           \<and> u16_bytes bo (next_read_size ch1) ! 0 = tcp_frame pkt ! 0
           \<and> (case tcp_read_byte bo (tcp_frame pkt ! 1) ch1 of
                (ch2, d2) \<Rightarrow> unat (next_read_size ch2) = length pkt
                   \<and> u16_bytes BIG_ENDIAN (next_read_size ch2) = take 2 (tcp_frame pkt))"
    using one m0 sz by (simp add: fr s1 r2 s2 be)
  have d: "unat (next_read_size ch) < 65536"
    using unsigned_less[of "next_read_size ch", where ?'a=nat] by simp
  have e: "length pkt + 2 < 65536 \<longrightarrow> snd (tcp_read bo (tcp_frame pkt) ch) = [pkt]"
    using tcp_read_frame[OF idle, of pkt bo] by auto
  have f: "\<forall>p. 256 * unat (tcp_frame p ! 0) + unat (tcp_frame p ! 1) = length p mod 65536"
    by (intro allI tcp_frame_announces)
  from a b c d e f show ?thesis by blast
qed

theorem tcp_length_prefix_witness:
  "length [1, 2, 3 :: 8 word] < 65536 \<and> unat (cur_read tcp_channel_new) = 0
   \<and> entry_bytes LITTLE_ENDIAN
        (last (output_chain (tcp_enqueue LITTLE_ENDIAN [1, 2, 3] tcp_channel_new)))
       = [0, 3, 1, 2, 3]
   \<and> snd (tcp_read LITTLE_ENDIAN [0, 3, 1, 2, 3] tcp_channel_new) = [[1, 2, 3]]"
proof -
  have h1: "length [1, 2, 3 :: 8 word] < 65536" by simp
  have h2: "unat (cur_read tcp_channel_new) = 0" by (simp add: tcp_channel_new_def)
  have f: "tcp_frame [1, 2, 3] = [0, 3, 1, 2, 3]" by (simp add: tcp_frame_def)
  from tcp_length_prefix[OF h1 h2, of LITTLE_ENDIAN] show ?thesis
    using h1 h2 by (simp add: f)
qed



subsection \<open>The request lifecycle\<close>

text \<open>
  C2. Whatever happens to a request after its creation, in any order: when it is in a
  terminal state (REPLIED or ERROR) it is no longer in its channel's index and its
  continuation has been invoked exactly once; the continuation is never invoked twice;
  and a request cancelled before a terminal state is out of the index, never reaches a
  terminal state and never has its continuation invoked.
\<close>

theorem request_continuation_exactly_once:
  assumes "request_created s0"
  shows "(terminal (state (rq (request_run maxr evs s0)))
            \<longrightarrow> \<not> registered (request_run maxr evs s0)
                \<and> invoked (request_run maxr evs s0) = 1)
       \<and> invoked (request_run maxr evs s0) \<le> 1
       \<and> (cancelled (request_run maxr evs s0)
            \<longrightarrow> invoked (request_run maxr evs s0) = 0
                \<and> \<not> registered (request_run maxr evs s0)
                \<and> \<not> terminal (state (rq (request_run maxr evs s0))))"
proof -
  have "life_inv (request_run maxr evs s0)"
    using assms by (intro life_inv_run life_inv_created)
  then show ?thesis by (auto simp add: life_inv_def)
qed

theorem request_continuation_exactly_once_witness:
  "request_created request_example
   \<and> state (rq (request_run 1
        [Ev_register True, Ev_queue_write, Ev_flushed, Ev_timeout, Ev_flushed, Ev_reply,
         Ev_reply, Ev_timeout, Ev_cancel] request_example)) = RDNS_REQUEST_REPLIED
   \<and> invoked (request_run 1
        [Ev_register True, Ev_queue_write, Ev_flushed, Ev_timeout, Ev_flushed, Ev_reply,
         Ev_reply, Ev_timeout, Ev_cancel] request_example) = 1
   \<and> \<not> registered (request_run 1
        [Ev_register True, Ev_queue_write, Ev_flushed, Ev_timeout, Ev_flushed, Ev_reply,
         Ev_reply, Ev_timeout, Ev_cancel] request_example)
   \<and> state (rq (request_run 1
        [Ev_register True, Ev_queue_write, Ev_flushed, Ev_timeout, Ev_flushed, Ev_timeout,
         Ev_reply] request_example)) = RDNS_REQUEST_ERROR
   \<and> invoked (request_run 1
        [Ev_register True, Ev_queue_write, Ev_flushed, Ev_timeout, Ev_flushed, Ev_timeout,
         Ev_reply] request_example) = 1
   \<and> cancelled (request_run 1
        [Ev_register True, Ev_queue_write, Ev_cancel, Ev_flushed, Ev_reply] request_example)
   \<and> invoked (request_run 1
        [Ev_register True, Ev_queue_write, Ev_cancel, Ev_flushed, Ev_reply] request_example) = 0"
proof -
  have h: "request_created request_example"
    by (simp add: request_created_def request_example_def registered_def)
  have a: "state (rq (request_run 1
        [Ev_register True, Ev_queue_write, Ev_flushed, Ev_timeout, Ev_flushed, Ev_reply,
         Ev_reply, Ev_timeout, Ev_cancel] request_example)) = RDNS_REQUEST_REPLIED"
    by code_simp
  have b: "state (rq (request_run 1
        [Ev_register True, Ev_queue_write, Ev_flushed, Ev_timeout, Ev_flushed, Ev_timeout,
         Ev_reply] request_example)) = RDNS_REQUEST_ERROR"
    by code_simp
  have c: "cancelled (request_run 1
        [Ev_register True, Ev_queue_write, Ev_cancel, Ev_flushed, Ev_reply] request_example)"
    by code_simp
  note t = request_continuation_exactly_once[OF h, of 1]
  from t[of "[Ev_register True, Ev_queue_write, Ev_flushed, Ev_timeout, Ev_flushed, Ev_reply,
         Ev_reply, Ev_timeout, Ev_cancel]"]
       t[of "[Ev_register True, Ev_queue_write, Ev_flushed, Ev_timeout, Ev_flushed, Ev_timeout,
         Ev_reply]"]
       t[of "[Ev_register True, Ev_queue_write, Ev_cancel, Ev_flushed, Ev_reply]"]
       h a b c
  show ?thesis by (simp add: terminal_def)
qed

end
